theory Spec2Isabelle
  imports Main "HOL-Library.Word" "HOL-Library.Char_ord"
begin

unbundle bit_operations_syntax

section \<open>RS232 monitor for Icom CI-V and Elecraft CAT: model of the sketch\<close>

text \<open>
  The sketch \<^verbatim>\<open>RS232_Raw_Monitor_Icom_Elecraft_V2_ManualTX.ino\<close> is embedded function by
  function. Globals become the fields of one state record that every function takes and
  returns; \<^verbatim>\<open>uint8_t\<close> is \<open>8 word\<close>, \<^verbatim>\<open>uint32_t\<close> is \<open>32 word\<close>, \<^verbatim>\<open>uint64_t\<close> is
  \<open>64 word\<close>, \<^verbatim>\<open>int\<close> is \<open>int\<close> (no \<^verbatim>\<open>int\<close> computation of the sketch leaves the 32-bit
  range), \<^verbatim>\<open>size_t\<close> indices and lengths are \<open>nat\<close>. A fixed array together with its
  length variable (\<^verbatim>\<open>gRxBuf\<close>/\<^verbatim>\<open>gRxLen\<close>, \<^verbatim>\<open>gLastTx\<close>/\<^verbatim>\<open>gLastTxLen\<close>) is the list of its
  first length elements: the sketch never reads an array beyond its length variable.
\<close>

type_synonym byte = "8 word"
type_synonym u32 = "32 word"
type_synonym u64 = "64 word"

subsection \<open>Defaults and configuration\<close>

definition RX_GAP_FLUSH_MS :: u32 where "RX_GAP_FLUSH_MS = 25"
definition RX_BUF_MAX :: nat where "RX_BUF_MAX = 512"
definition TX_MAX_BYTES :: nat where "TX_MAX_BYTES = 256"

datatype Proto = ICOM | ELE

datatype TxFormat = FMT_HEX | FMT_ASCII

record Config =
  usbBaud :: u32
  uartNum :: int
  rsBaud :: u32
  rxPin :: int
  txPin :: int
  rxInvert :: bool
  txInvert :: bool
  showAscii :: bool
  showTsMs :: bool
  rxGapFlushMs :: u32
  civDecode :: bool
  civEchoFilter :: bool
  proto :: Proto
  txFormat :: TxFormat

text \<open>
  The member initialisers of \<^verbatim>\<open>struct Config\<close>. The field \<^verbatim>\<open>rsCfg\<close> (the Arduino core's
  constant \<^verbatim>\<open>SERIAL_8N1\<close>) is only handed to the UART driver and is left out.
\<close>

definition defaultConfig :: Config where
  "defaultConfig = \<lparr> usbBaud = 115200, uartNum = 2, rsBaud = 9600, rxPin = 9, txPin = 10,
     rxInvert = False, txInvert = False, showAscii = True, showTsMs = True,
     rxGapFlushMs = RX_GAP_FLUSH_MS, civDecode = True, civEchoFilter = True,
     proto = ICOM, txFormat = FMT_HEX \<rparr>"

subsection \<open>The USB console\<close>

text \<open>
  What the sketch prints on \<^verbatim>\<open>Serial\<close> is a sequence of characters. One call is kept
  symbolic: \<^verbatim>\<open>decodeAndPrintElecraft(msg, dirTag)\<close> renders a frequency through
  \<^verbatim>\<open>double\<close> arithmetic, so the console records the call with its two arguments instead
  of the characters it prints.
\<close>

datatype out = Chr char | DecodeElecraft string string

definition emit :: "string \<Rightarrow> out list" where
  "emit s = map Chr s"

text \<open>\<^verbatim>\<open>Serial.println()\<close> ends a line with carriage return and line feed.\<close>

definition println :: string where
  "println = [CHR 0x0D, CHR 0x0A]"

text \<open>
  \<^verbatim>\<open>Serial.print(n, base)\<close> of the Arduino core for an unsigned number: the digits of
  \<open>n\<close>, most significant first, no leading zero, letters in upper case. The sketch prints
  in base 10 and base 16 only; the test \<open>base < 2\<close> below only makes the recursion end and
  stands for no behaviour of the core.
\<close>

definition digitChar :: "nat \<Rightarrow> char" where
  "digitChar c = (if c < 10 then char_of (c + 48) else char_of (c + 55))"

function printNumber :: "nat \<Rightarrow> nat \<Rightarrow> string" where
  "printNumber n base =
     (if base < 2 \<or> n < base then [digitChar n]
      else printNumber (n div base) base @ [digitChar (n mod base)])"
  by pat_completeness auto
termination
  by (relation "measure (\<lambda>(n, base). n)") auto

declare printNumber.simps [simp del]

definition printHex2 :: "byte \<Rightarrow> string" where
  "printHex2 v = (if v < 0x10 then ''0'' else []) @ printNumber (unat v) 16"

fun printHexArray :: "byte list \<Rightarrow> string" where
  "printHexArray [] = []"
| "printHexArray [b] = printHex2 b"
| "printHexArray (b # c # data) = printHex2 b @ '' '' @ printHexArray (c # data)"

definition printAsciiArray :: "byte list \<Rightarrow> string" where
  "printAsciiArray data =
     ''  |'' @ map (\<lambda>b. if 32 \<le> b \<and> b \<le> 126 then char_of (unat b) else CHR ''.'') data @ ''|''"

subsection \<open>CI-V helpers\<close>

definition isCivFrame :: "byte list \<Rightarrow> bool" where
  "isCivFrame data \<longleftrightarrow>
     length data \<ge> 6 \<and> data ! 0 = 0xFE \<and> data ! 1 = 0xFE \<and> data ! (length data - 1) = 0xFD"

text \<open>The inner loop of \<^verbatim>\<open>findCivFrame\<close>: the first index from \<open>j\<close> on that holds \<open>0xFD\<close>.\<close>

function findEnd :: "byte list \<Rightarrow> nat \<Rightarrow> nat option" where
  "findEnd data j =
     (if j < length data
      then (if data ! j = 0xFD then Some j else findEnd data (j + 1))
      else None)"
  by pat_completeness auto
termination
  by (relation "measure (\<lambda>(data, j). length data - j)") auto

declare findEnd.simps [simp del]

text \<open>The outer loop of \<^verbatim>\<open>findCivFrame\<close>, from index \<open>i\<close>; the result is \<open>(start, end)\<close>.\<close>

function findCivFrameFrom :: "byte list \<Rightarrow> nat \<Rightarrow> (nat \<times> nat) option" where
  "findCivFrameFrom data i =
     (if i + 1 < length data
      then (if data ! i = 0xFE \<and> data ! (i + 1) = 0xFE
            then (case findEnd data (i + 2) of
                    Some j \<Rightarrow> Some (i, j)
                  | None \<Rightarrow> findCivFrameFrom data (i + 1))
            else findCivFrameFrom data (i + 1))
      else None)"
  by pat_completeness auto
termination
  by (relation "measure (\<lambda>(data, i). length data - i)") auto

declare findCivFrameFrom.simps [simp del]

definition findCivFrame :: "byte list \<Rightarrow> (nat \<times> nat) option" where
  "findCivFrame data = findCivFrameFrom data 0"

definition bcdToInt2 :: "byte \<Rightarrow> int" where
  "bcdToInt2 b =
     (let lo = uint (b AND 0x0F);
          hi = uint (drop_bit 4 b AND 0x0F)
      in if lo > 9 \<or> hi > 9 then - 1 else hi * 10 + lo)"

text \<open>
  The first loop of \<^verbatim>\<open>decodeCivFreqHz\<close>, \<^verbatim>\<open>for (int i = 4; i >= 0; i--)\<close>: \<open>civDigits b5 n\<close>
  runs it from \<open>i = n - 1\<close> down to \<open>0\<close> and yields the characters it stores in
  \<^verbatim>\<open>digits\<close>, or \<open>None\<close> where the loop returns \<^verbatim>\<open>false\<close>.
\<close>

fun civDigits :: "byte list \<Rightarrow> nat \<Rightarrow> string option" where
  "civDigits b5 0 = Some []"
| "civDigits b5 (Suc i) =
     (let v = bcdToInt2 (b5 ! i)
      in if v < 0 then None
         else (case civDigits b5 i of
                 None \<Rightarrow> None
               | Some ds \<Rightarrow> Some (char_of (48 + v div 10) # char_of (48 + v mod 10) # ds)))"

text \<open>The second loop: \<^verbatim>\<open>hz = hz * 10 + (uint64_t)(digits[i] - '0')\<close> in 64-bit arithmetic.\<close>

fun civHz :: "u64 \<Rightarrow> string \<Rightarrow> u64" where
  "civHz hz [] = hz"
| "civHz hz (d # ds) = civHz (hz * 10 + word_of_int (of_char d - 48)) ds"

definition decodeCivFreqHz :: "byte list \<Rightarrow> u32 option" where
  "decodeCivFreqHz b5 =
     (case civDigits b5 5 of
        None \<Rightarrow> None
      | Some digits \<Rightarrow>
          (let hz = civHz 0 digits
           in if hz > 0xFFFFFFFF then None else Some (ucast hz)))"

definition civModeName :: "byte \<Rightarrow> string" where
  "civModeName mode =
     (if mode = 0x00 then ''LSB''
      else if mode = 0x01 then ''USB''
      else if mode = 0x02 then ''AM''
      else if mode = 0x03 then ''CW''
      else if mode = 0x04 then ''RTTY''
      else if mode = 0x05 then ''FM''
      else if mode = 0x06 then ''WFM''
      else if mode = 0x07 then ''CW-R''
      else if mode = 0x08 then ''RTTY-R''
      else ''UNKNOWN'')"

text \<open>
  \<^verbatim>\<open>snprintf(buf, sizeof(buf), "%06lu", rem)\<close> with \<^verbatim>\<open>char buf[7]\<close>: the decimal digits of
  \<open>rem\<close>, padded with zeros on the left to six characters, cut after \<^verbatim>\<open>sizeof(buf) - 1\<close>.
\<close>

definition snprintf_06lu :: "nat \<Rightarrow> nat \<Rightarrow> string" where
  "snprintf_06lu sz n =
     (let s = printNumber n 10
      in take (sz - 1) (replicate (6 - length s) CHR ''0'' @ s))"

definition printHzAsMHz :: "u32 \<Rightarrow> string" where
  "printHzAsMHz hz =
     (let mhz = hz div 1000000;
          rem = hz mod 1000000;
          buf = snprintf_06lu 7 (unat rem)
      in printNumber (unat mhz) 10 @ ''.'' @ [buf ! 0, buf ! 1, buf ! 2] @ ''.''
         @ [buf ! 3, buf ! 4, buf ! 5] @ '' MHz'')"

subsection \<open>Program state\<close>

text \<open>
  The globals of the sketch. \<open>gRs\<close> says whether the pointer \<^verbatim>\<open>gRs\<close> is non-null,
  \<open>serial\<close> is everything printed on the USB console so far, \<open>rs232\<close> is every byte
  written to the RS232 port so far.
\<close>

record State =
  g :: Config
  gRs :: bool
  gLastTx :: "byte list"
  gLastTxIsCiv :: bool
  gRxBuf :: "byte list"
  gLastRxMs :: u32
  serial :: "out list"
  rs232 :: "byte list"

text \<open>The state once \<^verbatim>\<open>setup()\<close> has opened the port; the console is taken as empty.\<close>

definition initState :: State where
  "initState = \<lparr> g = defaultConfig, gRs = True, gLastTx = [], gLastTxIsCiv = False,
     gRxBuf = [], gLastRxMs = 0, serial = [], rs232 = [] \<rparr>"

text \<open>
  The comparison loops of \<^verbatim>\<open>flushRxLine\<close> and \<^verbatim>\<open>isEchoOfLastTx\<close>:
  \<^verbatim>\<open>for (i < n) if (a[i] != b[i]) \<close> leaves with \<^verbatim>\<open>false\<close>.
\<close>

function sameBytes :: "byte list \<Rightarrow> byte list \<Rightarrow> nat \<Rightarrow> nat \<Rightarrow> bool" where
  "sameBytes a b i n =
     (if i < n then (if a ! i \<noteq> b ! i then False else sameBytes a b (i + 1) n) else True)"
  by pat_completeness auto
termination
  by (relation "measure (\<lambda>(a, b, i, n). n - i)") auto

declare sameBytes.simps [simp del]

definition isEchoOfLastTx :: "State \<Rightarrow> byte list \<Rightarrow> bool" where
  "isEchoOfLastTx st civ =
     (if \<not> gLastTxIsCiv st \<or> length (gLastTx st) \<noteq> length civ then False
      else sameBytes (gLastTx st) civ 0 (length civ))"

definition civHeader :: "byte list \<Rightarrow> string \<Rightarrow> bool \<Rightarrow> string" where
  "civHeader civ dirTag isEcho =
     ''    '' @ dirTag @ '' CI-V: to='' @ printHex2 (civ ! 2)
     @ '' from='' @ printHex2 (civ ! 3)
     @ '' cmd='' @ printHex2 (civ ! 4)
     @ (if isEcho then '' (ECHO)'' else [])"

definition decodeAndPrintCivFrame :: "byte list \<Rightarrow> string \<Rightarrow> bool \<Rightarrow> string" where
  "decodeAndPrintCivFrame civ dirTag isEcho =
     (if length civ < 6 then []
      else
        let cmd = civ ! 4; civLen = length civ; hdr = civHeader civ dirTag isEcho
        in if cmd = 0xFA \<and> civLen = 6 then hdr @ ''  -> ACK (FA)'' @ println
           else if cmd = 0xFB \<and> civLen = 6 then hdr @ ''  -> NAK (FB)'' @ println
           else if cmd = 0x00 \<and> civLen \<ge> 11 then
             hdr @ (case decodeCivFreqHz (drop 5 civ) of
                      Some hz \<Rightarrow> ''  -> SET FREQ: '' @ printHzAsMHz hz
                    | None \<Rightarrow> ''  -> SET FREQ: (decode error)'') @ println
           else if cmd = 0x03 \<and> civLen \<ge> 11 then
             hdr @ (case decodeCivFreqHz (drop 5 civ) of
                      Some hz \<Rightarrow> ''  -> FREQ: '' @ printHzAsMHz hz
                    | None \<Rightarrow> ''  -> FREQ: (decode error)'') @ println
           else if cmd = 0x04 \<and> civLen \<ge> 7 then
             hdr @ ''  -> MODE: '' @ civModeName (civ ! 5) @ ''  FILT=''
             @ printHex2 (if civLen \<ge> 8 then civ ! 6 else 0x00) @ println
           else if cmd = 0x01 \<and> civLen \<ge> 7 then
             hdr @ ''  -> SET MODE: '' @ civModeName (civ ! 5) @ ''  FILT=''
             @ printHex2 (if civLen \<ge> 8 then civ ! 6 else 0x00) @ println
           else hdr @ println)"

subsection \<open>RX grouping and printing\<close>

text \<open>
  \<^verbatim>\<open>millis()\<close> is an input: every function that reads the clock takes the reading as an
  argument, and a flush started by \<^verbatim>\<open>onRxByte\<close> or by the loop prints the reading of
  its caller as its timestamp.
\<close>

text \<open>
  The echo filter at the head of \<^verbatim>\<open>flushRxLine\<close>: the values it leaves in
  \<^verbatim>\<open>removedEchoAtStart\<close> and \<^verbatim>\<open>startOffset\<close>.
\<close>

definition removedEchoAtStart :: "State \<Rightarrow> bool" where
  "removedEchoAtStart st \<longleftrightarrow>
     civDecode (g st) \<and> civEchoFilter (g st) \<and> gLastTxIsCiv st
     \<and> length (gRxBuf st) \<ge> length (gLastTx st) \<and> length (gLastTx st) > 0
     \<and> sameBytes (gRxBuf st) (gLastTx st) 0 (length (gLastTx st))
     \<and> length (gRxBuf st) > length (gLastTx st)"

definition startOffset :: "State \<Rightarrow> nat" where
  "startOffset st = (if removedEchoAtStart st then length (gLastTx st) else 0)"

definition timestamp :: "State \<Rightarrow> u32 \<Rightarrow> string" where
  "timestamp st ms = (if showTsMs (g st) then ''['' @ printNumber (unat ms) 10 @ ''] '' else [])"

text \<open>The CI-V extraction loop of \<^verbatim>\<open>flushRxLine\<close> over \<open>p\<close>, from \<open>cursor\<close>.\<close>

function rxCivLoop :: "State \<Rightarrow> byte list \<Rightarrow> nat \<Rightarrow> string" where
  "rxCivLoop st p cursor =
     (if cursor < length p
      then (case findCivFrame (drop cursor p) of
              None \<Rightarrow> []
            | Some (s0, e0) \<Rightarrow>
                decodeAndPrintCivFrame
                  (take (e0 + cursor - (s0 + cursor) + 1) (drop (s0 + cursor) p)) ''RX''
                  (civEchoFilter (g st)
                   \<and> isEchoOfLastTx st (take (e0 + cursor - (s0 + cursor) + 1) (drop (s0 + cursor) p)))
                @ rxCivLoop st p (e0 + cursor + 1))
      else [])"
  by pat_completeness auto
termination
  by (relation "measure (\<lambda>(st, p, cursor). length p - cursor)") auto

declare rxCivLoop.simps [simp del]

text \<open>The Elecraft loop of \<^verbatim>\<open>flushRxLine\<close>; \<open>accum\<close> is the text gathered so far.\<close>

fun rxEleLoop :: "string \<Rightarrow> byte list \<Rightarrow> out list" where
  "rxEleLoop accum [] = []"
| "rxEleLoop accum (b # p) =
     (let c = char_of (unat b)
      in if c = CHR 0x0D \<or> c = CHR 0x0A then rxEleLoop accum p
         else if c = CHR '';'' then DecodeElecraft (accum @ [c]) ''RX'' # rxEleLoop [] p
         else rxEleLoop (accum @ [c]) p)"

text \<open>
  The second half of \<^verbatim>\<open>flushRxLine\<close>, from the dump line on: everything it prints, given
  the bytes \<open>p\<close> (\<^verbatim>\<open>gRxBuf + startOffset\<close>, of length \<^verbatim>\<open>gRxLen - startOffset\<close>) and the flag
  \<^verbatim>\<open>removedEchoAtStart\<close>.
\<close>

definition rxPrint :: "State \<Rightarrow> u32 \<Rightarrow> byte list \<Rightarrow> bool \<Rightarrow> out list" where
  "rxPrint st ms p removed =
     emit (timestamp st ms @ ''RX: '' @ printHexArray p
           @ (if showAscii (g st) then printAsciiArray p else []) @ println
           @ (if removed then ''    (Echo-Filter: TX-Echo am Anfang entfernt)'' @ println else [])
           @ (if proto (g st) = ICOM \<and> civDecode (g st) then rxCivLoop st p 0 else []))
     @ (if proto (g st) = ELE then rxEleLoop [] p else [])"

definition flushRxLine :: "State \<Rightarrow> u32 \<Rightarrow> State" where
  "flushRxLine st ms =
     (if length (gRxBuf st) = 0 then st
      else st\<lparr> serial := serial st
                  @ rxPrint st ms (drop (startOffset st) (gRxBuf st)) (removedEchoAtStart st),
                gRxBuf := [] \<rparr>)"

definition onRxByte :: "State \<Rightarrow> u32 \<Rightarrow> byte \<Rightarrow> State" where
  "onRxByte st now b =
     (let st1 = (if length (gRxBuf st) > 0 \<and> now - gLastRxMs st > rxGapFlushMs (g st)
                 then flushRxLine st now else st);
          st2 = st1\<lparr> gLastRxMs := now \<rparr>;
          st3 = (if length (gRxBuf st2) < RX_BUF_MAX
                 then st2\<lparr> gRxBuf := gRxBuf st2 @ [b] \<rparr>
                 else (let st' = flushRxLine st2 now in st'\<lparr> gRxBuf := gRxBuf st' @ [b] \<rparr>))
      in if b = 0x3B \<and> proto (g st3) = ELE then flushRxLine st3 now else st3)"

text \<open>
  The RS232 half of \<^verbatim>\<open>loop()\<close>: \<open>drainRx\<close> is the \<^verbatim>\<open>while (gRs->available() > 0)\<close> loop
  over the bytes that are waiting, each with the clock reading of its \<^verbatim>\<open>onRxByte\<close>
  call; \<open>pollGap\<close> is the gap check that follows it.
\<close>

fun drainRx :: "State \<Rightarrow> (u32 \<times> byte) list \<Rightarrow> State" where
  "drainRx st [] = st"
| "drainRx st ((now, b) # rest) = drainRx (onRxByte st now b) rest"

definition pollGap :: "State \<Rightarrow> u32 \<Rightarrow> State" where
  "pollGap st now =
     (if length (gRxBuf st) > 0 \<and> now - gLastRxMs st > rxGapFlushMs (g st)
      then flushRxLine st now else st)"

definition loopRx :: "State \<Rightarrow> (u32 \<times> byte) list \<Rightarrow> u32 \<Rightarrow> State" where
  "loopRx st avail now = (if gRs st then pollGap (drainRx st avail) now else st)"

subsection \<open>TX: parsing and sending\<close>

text \<open>
  \<^verbatim>\<open>String::trim()\<close> of the Arduino core removes the characters for which \<^verbatim>\<open>isspace\<close>
  holds (space, tab, line feed, vertical tab, form feed, carriage return) from both ends.
\<close>

definition isspace :: "char \<Rightarrow> bool" where
  "isspace c \<longleftrightarrow> c = CHR '' '' \<or> (CHR 0x09 \<le> c \<and> c \<le> CHR 0x0D)"

definition trim :: "string \<Rightarrow> string" where
  "trim s = rev (dropWhile isspace (rev (dropWhile isspace s)))"

definition isHexChar :: "char \<Rightarrow> bool" where
  "isHexChar c \<longleftrightarrow>
     (c \<ge> CHR ''0'' \<and> c \<le> CHR ''9'') \<or> (c \<ge> CHR ''A'' \<and> c \<le> CHR ''F'')
     \<or> (c \<ge> CHR ''a'' \<and> c \<le> CHR ''f'')"

definition hexNibble :: "char \<Rightarrow> int" where
  "hexNibble c =
     (if c \<ge> CHR ''0'' \<and> c \<le> CHR ''9'' then of_char c - of_char CHR ''0''
      else if c \<ge> CHR ''A'' \<and> c \<le> CHR ''F'' then 10 + (of_char c - of_char CHR ''A'')
      else if c \<ge> CHR ''a'' \<and> c \<le> CHR ''f'' then 10 + (of_char c - of_char CHR ''a'')
      else - 1)"

text \<open>The values \<^verbatim>\<open>parseHexString\<close> leaves in \<^verbatim>\<open>err\<close> when it returns \<^verbatim>\<open>false\<close>.\<close>

datatype hexError = EmptyInput | InvalidChar | OddDigits | TooManyBytes nat | InvalidByte

definition errText :: "hexError \<Rightarrow> string" where
  "errText e =
     (case e of
        EmptyInput \<Rightarrow> ''Leere Eingabe.''
      | InvalidChar \<Rightarrow> ''Ungueltiges Zeichen im Hex-String.''
      | OddDigits \<Rightarrow> ''Ungerade Anzahl Hex-Zeichen (Byte fehlt).''
      | TooManyBytes outMax \<Rightarrow> ''Zu viele Bytes (max. '' @ printNumber outMax 10 @ '').''
      | InvalidByte \<Rightarrow> ''Ungueltiges Hex-Byte.'')"

text \<open>The first loop of \<^verbatim>\<open>parseHexString\<close>, over the rest of \<open>s\<close>, with \<open>compact\<close> so far.\<close>

fun compactLoop :: "string \<Rightarrow> string \<Rightarrow> hexError + string" where
  "compactLoop compact [] = Inr compact"
| "compactLoop compact (c # s) =
     (if c = CHR '' '' \<or> c = CHR 0x09 \<or> c = CHR 0x0D \<or> c = CHR 0x0A then compactLoop compact s
      else if \<not> isHexChar c then Inl InvalidChar
      else compactLoop (compact @ [c]) s)"

text \<open>The second loop, from byte index \<open>i\<close>, with the bytes written to \<open>out\<close> so far.\<close>

function bytesLoop :: "string \<Rightarrow> nat \<Rightarrow> nat \<Rightarrow> byte list \<Rightarrow> hexError + byte list" where
  "bytesLoop compact bytes i out =
     (if i < bytes
      then (let hi = hexNibble (compact ! (i * 2));
                lo = hexNibble (compact ! (i * 2 + 1))
            in if hi < 0 \<or> lo < 0 then Inl InvalidByte
               else bytesLoop compact bytes (i + 1) (out @ [word_of_int (push_bit 4 hi OR lo)]))
      else Inr out)"
  by pat_completeness auto
termination
  by (relation "measure (\<lambda>(compact, bytes, i, out). bytes - i)") auto

declare bytesLoop.simps [simp del]

definition parseHexString :: "string \<Rightarrow> nat \<Rightarrow> hexError + byte list" where
  "parseHexString inp outMax =
     (let s = trim inp
      in if length s = 0 then Inl EmptyInput
         else (case compactLoop [] s of
                 Inl e \<Rightarrow> Inl e
               | Inr compact \<Rightarrow>
                   if length compact mod 2 \<noteq> 0 then Inl OddDigits
                   else if length compact div 2 > outMax then Inl (TooManyBytes outMax)
                   else bytesLoop compact (length compact div 2) 0 []))"

text \<open>The CI-V loop of \<^verbatim>\<open>txPrintCommon\<close>.\<close>

function txCivLoop :: "byte list \<Rightarrow> nat \<Rightarrow> string" where
  "txCivLoop bytes cursor =
     (if cursor < length bytes
      then (case findCivFrame (drop cursor bytes) of
              None \<Rightarrow> []
            | Some (s0, e0) \<Rightarrow>
                decodeAndPrintCivFrame
                  (take (e0 + cursor - (s0 + cursor) + 1) (drop (s0 + cursor) bytes)) ''TX'' False
                @ txCivLoop bytes (e0 + cursor + 1))
      else [])"
  by pat_completeness auto
termination
  by (relation "measure (\<lambda>(bytes, cursor). length bytes - cursor)") auto

declare txCivLoop.simps [simp del]

definition txPrintCommon :: "State \<Rightarrow> byte list \<Rightarrow> string option \<Rightarrow> u32 \<Rightarrow> State" where
  "txPrintCommon st bytes asciiLineOrNull ms =
     st\<lparr> serial := serial st
           @ emit (timestamp st ms @ ''TX: '' @ printHexArray bytes
                   @ (if showAscii (g st) then printAsciiArray bytes else []) @ println)
           @ (case asciiLineOrNull of
                Some line \<Rightarrow> [DecodeElecraft line ''TX'']
              | None \<Rightarrow> if civDecode (g st) then emit (txCivLoop bytes 0) else []) \<rparr>"

definition sendHexLine :: "State \<Rightarrow> string \<Rightarrow> u32 \<Rightarrow> State" where
  "sendHexLine st s ms =
     (case parseHexString s TX_MAX_BYTES of
        Inl err \<Rightarrow> st\<lparr> serial := serial st @ emit (''ERR: '' @ errText err @ println) \<rparr>
      | Inr bytes \<Rightarrow>
          (let st1 = st\<lparr> gLastTx := take (min (length bytes) TX_MAX_BYTES) bytes,
                         gLastTxIsCiv := isCivFrame bytes \<rparr>;
               st2 = (if gRs st1 then st1\<lparr> rs232 := rs232 st1 @ bytes \<rparr> else st1)
           in txPrintCommon st2 bytes None ms))"

definition sendAsciiRaw :: "State \<Rightarrow> string \<Rightarrow> u32 \<Rightarrow> State" where
  "sendAsciiRaw st s0 ms =
     (let s = trim s0;
          st1 = (if gRs st then st\<lparr> rs232 := rs232 st @ map of_char s \<rparr> else st);
          bytes = map of_char (take (min (length s) TX_MAX_BYTES) s);
          st2 = st1\<lparr> gLastTx := take (min (length bytes) TX_MAX_BYTES) bytes,
                      gLastTxIsCiv := isCivFrame bytes \<rparr>
      in txPrintCommon st2 bytes (Some s) ms)"

subsection \<open>Notions of the specification\<close>

text \<open>
  The decimal digits of \<open>n\<close> in a field of \<open>k\<close> characters, most significant first,
  with leading zeros.
\<close>

definition decDigits :: "nat \<Rightarrow> nat \<Rightarrow> string" where
  "decDigits k n = map (\<lambda>i. digitChar (n div 10 ^ i mod 10)) (rev [0..<k])"

text \<open>
  Modelled from the spec: the BCD encoder of a frequency, which the sketch does not contain
  (it only decodes). Byte \<open>i\<close> holds the digit pair \<open>2i, 2i+1\<close> counted from the least
  significant pair, tens digit in the high nibble, and the byte of the most significant
  pair comes last. The quick reference printed by the sketch gives the layout by example:
  14.330.000 MHz is \<^verbatim>\<open>00 00 33 14 00\<close>.
\<close>

definition bcdByte :: "nat \<Rightarrow> byte" where
  "bcdByte p = word_of_nat (16 * (p div 10) + p mod 10)"

definition encodeCivFreqHz :: "nat \<Rightarrow> byte list" where
  "encodeCivFreqHz H = map (\<lambda>i. bcdByte (H div 100 ^ i mod 100)) [0..<5]"

text \<open>
  The hex digits of an input line: the line without its blanks, tabs, carriage returns and
  line feeds; and the bytes that a string of hex digits denotes, two digits to a byte.
\<close>

definition stripWs :: "string \<Rightarrow> string" where
  "stripWs s = filter (\<lambda>c. \<not> (c = CHR '' '' \<or> c = CHR 0x09 \<or> c = CHR 0x0D \<or> c = CHR 0x0A)) s"

fun hexPairs :: "string \<Rightarrow> byte list" where
  "hexPairs (h # l # cs) = word_of_int (16 * hexNibble h + hexNibble l) # hexPairs cs"
| "hexPairs cs = []"

text \<open>
  Binary-frame shape: at least six bytes, the two-byte start sentinel \<^verbatim>\<open>FE FE\<close> first, the
  end sentinel \<^verbatim>\<open>FD\<close> last.
\<close>

definition civShape :: "byte list \<Rightarrow> bool" where
  "civShape bs \<longleftrightarrow> 6 \<le> length bs \<and> take 2 bs = [0xFE, 0xFE] \<and> last bs = 0xFD"

text \<open>
  The frames that the extraction loop of \<^verbatim>\<open>flushRxLine\<close> hands to
  \<^verbatim>\<open>decodeAndPrintCivFrame\<close>, in order: the loop \<open>rxCivLoop\<close> with the spans kept and the
  printing left out.
\<close>

function civFrames :: "byte list \<Rightarrow> nat \<Rightarrow> byte list list" where
  "civFrames p cursor =
     (if cursor < length p
      then (case findCivFrame (drop cursor p) of
              None \<Rightarrow> []
            | Some (s0, e0) \<Rightarrow>
                take (e0 + cursor - (s0 + cursor) + 1) (drop (s0 + cursor) p)
                # civFrames p (e0 + cursor + 1))
      else [])"
  by pat_completeness auto
termination
  by (relation "measure (\<lambda>(p, cursor). length p - cursor)") auto

declare civFrames.simps [simp del]

text \<open>
  A well-formed frame in the sense of the extractor: binary-frame shape, and no end
  sentinel \<^verbatim>\<open>FD\<close> before the last byte.
\<close>

definition wellFormed :: "byte list \<Rightarrow> bool" where
  "wellFormed F \<longleftrightarrow> civShape F \<and> 0xFD \<notin> set (butlast F)"

text \<open>
  The dump of a byte sequence as the specification describes it: two upper-case hex digits
  for each byte, the bytes separated by single blanks.
\<close>

definition hexDigit :: "nat \<Rightarrow> char" where
  "hexDigit n = ''0123456789ABCDEF'' ! n"

definition hex2 :: "byte \<Rightarrow> string" where
  "hex2 b = [hexDigit (unat b div 16), hexDigit (unat b mod 16)]"

fun hexDump :: "byte list \<Rightarrow> string" where
  "hexDump [] = []"
| "hexDump [b] = hex2 b"
| "hexDump (b # c # bs) = hex2 b @ '' '' @ hexDump (c # bs)"

text \<open>
  The dump line of a flush, with the notice line that follows it when an echo was stripped:
  the optional timestamp, \<^verbatim>\<open>RX: \<close>, the dump of the displayed bytes, the optional ASCII
  column, the end of line.
\<close>

definition dumpLine :: "Config \<Rightarrow> u32 \<Rightarrow> byte list \<Rightarrow> bool \<Rightarrow> string" where
  "dumpLine c ms shown stripped =
     (if showTsMs c then ''['' @ printNumber (unat ms) 10 @ ''] '' else [])
     @ ''RX: '' @ hexDump shown
     @ (if showAscii c then printAsciiArray shown else []) @ println
     @ (if stripped then ''    (Echo-Filter: TX-Echo am Anfang entfernt)'' @ println else [])"

text \<open>
  One flushed group of a run, as the console shows it: the clock reading, whether the echo
  of the last-TX record was stripped from its head, the bytes displayed, and what the
  decoders printed after the dump line. \<open>flushedBytes\<close> are the bytes of the buffer the
  group stands for, \<open>flushedText\<close> is what the console gains by it.
\<close>

type_synonym flushed = "u32 \<times> bool \<times> byte list \<times> out list"

definition flushedBytes :: "byte list \<Rightarrow> flushed \<Rightarrow> byte list" where
  "flushedBytes tx f = (case f of (ms, stripped, shown, decoded) \<Rightarrow> (if stripped then tx else []) @ shown)"

definition flushedText :: "Config \<Rightarrow> flushed \<Rightarrow> out list" where
  "flushedText c f = (case f of (ms, stripped, shown, decoded) \<Rightarrow> emit (dumpLine c ms shown stripped) @ decoded)"

section \<open>Verification\<close>

subsection \<open>Printing numbers\<close>


lemma digitChar_0: "digitChar 0 = CHR ''0''"
  by code_simp

lemma printNumber_small: "n < 10 \<Longrightarrow> printNumber n 10 = [digitChar n]"
  by (simp add: printNumber.simps)

lemma printNumber_big: "\<not> n < 10 \<Longrightarrow> printNumber n 10 = printNumber (n div 10) 10 @ [digitChar (n mod 10)]"
  by (subst printNumber.simps) simp


lemma decDigits_Suc: "decDigits (Suc k) n = decDigits k (n div 10) @ [digitChar (n mod 10)]"
proof -
  have "[0..<Suc k] = 0 # map Suc [0..<k]"
    by (simp add: upt_conv_Cons map_Suc_upt del: upt_Suc)
  then have "rev [0..<Suc k] = map Suc (rev [0..<k]) @ [0]"
    by (simp add: rev_map)
  then show ?thesis
    by (simp add: decDigits_def div_mult2_eq del: upt_Suc)
qed

lemma decDigits_zero: "decDigits k 0 = replicate k CHR ''0''"
  by (induction k) (simp_all add: decDigits_Suc digitChar_0 replicate_append_same, simp add: decDigits_def)

lemma pad_printNumber:
  "n < 10 ^ k \<Longrightarrow> 0 < k \<Longrightarrow>
   length (printNumber n 10) \<le> k \<and>
   replicate (k - length (printNumber n 10)) CHR ''0'' @ printNumber n 10 = decDigits k n"
proof (induction k arbitrary: n)
  case 0
  then show ?case by simp
next
  case (Suc k)
  show ?case
  proof (cases "n < 10")
    case True
    then show ?thesis
      by (simp add: printNumber_small decDigits_Suc decDigits_zero)
  next
    case False
    with Suc.prems have k: "0 < k" by (cases k) auto
    from Suc.prems have "n div 10 < 10 ^ k" by (simp add: less_mult_imp_div_less mult.commute)
    from Suc.IH [OF this k] False show ?thesis
      by (simp add: printNumber_big decDigits_Suc Suc_diff_le)
  qed
qed

lemma low_nibble: "uint (b AND 0x0F) = uint b mod 16" for b :: byte
proof -
  have e: "b AND 0x0F = take_bit 4 b"
    by (simp add: take_bit_eq_mask mask_eq_exp_minus_1)
  have "uint (take_bit 4 b) = take_bit 4 (uint b)"
    by (rule unsigned_take_bit_eq)
  also have "\<dots> = uint b mod 16"
    by (simp add: take_bit_eq_mod)
  finally show ?thesis
    by (simp only: e)
qed

lemma high_nibble: "uint (drop_bit 4 b AND 0x0F) = uint b div 16" for b :: byte
proof -
  have "uint b < 256" using uint_bounded [of b] by simp
  then have lt: "uint b div 16 < 16" by simp
  have ge: "0 \<le> uint b div 16"
    using uint_ge_0 [of b] by (simp add: pos_imp_zdiv_nonneg_iff)
  have "uint (drop_bit 4 b) = uint b div 16"
    by (simp add: drop_bit_eq_div uint_div)
  with lt ge show ?thesis
    by (simp add: low_nibble)
qed

lemma bcd_arith: "bcdToInt2 b = (if uint b mod 16 > 9 \<or> uint b div 16 > 9 then - 1
     else uint b div 16 * 10 + uint b mod 16)"
  unfolding bcdToInt2_def Let_def high_nibble unfolding low_nibble by simp


lemma bcdToInt2_bcdByte: "p < 100 \<Longrightarrow> bcdToInt2 (bcdByte p) = int p"
proof -
  assume p: "p < 100"
  then have "16 * (p div 10) + p mod 10 < 256" by simp
  moreover have "unat (bcdByte p) = (16 * (p div 10) + p mod 10) mod 2 ^ LENGTH(8)"
    unfolding bcdByte_def by (rule unat_of_nat)
  ultimately have "unat (bcdByte p) = 16 * (p div 10) + p mod 10"
    by simp
  then have u: "uint (bcdByte p) = int (16 * (p div 10) + p mod 10)"
    by (simp only: uint_nat)
  have m: "uint (bcdByte p) mod 16 = int (p mod 10)"
    unfolding u by (simp add: zmod_int)
  have d: "uint (bcdByte p) div 16 = int (p div 10)"
    unfolding u by (simp add: zdiv_int)
  from p have "p div 10 \<le> 9" by simp
  moreover have "p mod 10 \<le> 9" by simp
  moreover have "int (p div 10) * 10 + int (p mod 10) = int p"
    by (simp add: zdiv_int zmod_int)
  ultimately show ?thesis
    unfolding bcd_arith m d by simp
qed

lemma five: "(5::nat) = Suc (Suc (Suc (Suc (Suc 0))))"
  by simp

lemma civDigits_5:
  "civDigits [b0, b1, b2, b3, b4] 5 =
     (if bcdToInt2 b4 < 0 \<or> bcdToInt2 b3 < 0 \<or> bcdToInt2 b2 < 0 \<or> bcdToInt2 b1 < 0 \<or> bcdToInt2 b0 < 0
      then None
      else Some (concat (map (\<lambda>b. [char_of (48 + bcdToInt2 b div 10), char_of (48 + bcdToInt2 b mod 10)])
                  [b4, b3, b2, b1, b0])))"
  unfolding five by (simp add: Let_def)

lemma upt_5: "[0..<5] = [0, 1, 2, 3, 4]"
  by code_simp

lemma encode_list:
  "encodeCivFreqHz H = [bcdByte (H mod 100), bcdByte (H div 100 mod 100), bcdByte (H div 10000 mod 100),
     bcdByte (H div 1000000 mod 100), bcdByte (H div 100000000 mod 100)]"
  by (simp add: encodeCivFreqHz_def upt_5)


lemma civHz_step:
  "0 \<le> d \<Longrightarrow> d \<le> 9 \<Longrightarrow>
   civHz (word_of_int a) (char_of (48 + d) # ds) = civHz (word_of_int (a * 10 + d)) ds"
  by (simp add: mod_pos_pos_trivial)

lemma civHz_pair:
  assumes "p < 100"
  shows "civHz (word_of_nat a) (char_of (48 + int p div 10) # char_of (48 + int p mod 10) # ds)
         = civHz (word_of_nat (a * 100 + p)) ds"
proof -
  from assms have d1: "0 \<le> int p div 10" "int p div 10 \<le> 9" by simp_all
  have d0: "0 \<le> int p mod 10" "int p mod 10 \<le> 9" by simp_all
  have "(int a * 10 + int p div 10) * 10 + int p mod 10 = int (a * 100 + p)"
    by simp
  then show ?thesis
    using civHz_step [OF d1, of "int a"] civHz_step [OF d0, of "int a * 10 + int p div 10"]
    by (simp only: of_int_of_nat_eq)
qed

lemma civHz_pair0:
  assumes "p < 100"
  shows "civHz 0 (char_of (48 + int p div 10) # char_of (48 + int p mod 10) # ds)
         = civHz (word_of_nat p) ds"
  using civHz_pair [OF assms, of 0 ds] by simp

lemma hundreds:
  assumes "H < 10 ^ 10"
  shows "(((H div 100000000 mod 100 * 100 + H div 1000000 mod 100) * 100 + H div 10000 mod 100) * 100
          + H div 100 mod 100) * 100 + H mod 100 = (H::nat)"
proof -
  define q1 where "q1 = H div 100"
  define q2 where "q2 = q1 div 100"
  define q3 where "q3 = q2 div 100"
  define q4 where "q4 = q3 div 100"
  have e2: "H div 10000 = q2"
    unfolding q2_def q1_def by (simp add: div_mult2_eq [symmetric])
  have e3: "H div 1000000 = q3"
    unfolding q3_def e2 [symmetric] by (simp add: div_mult2_eq [symmetric])
  have e4: "H div 100000000 = q4"
    unfolding q4_def e3 [symmetric] by (simp add: div_mult2_eq [symmetric])
  from assms have "q4 < 100"
    unfolding e4 [symmetric] by simp
  then have r4: "q4 mod 100 * 100 + q3 mod 100 = q3"
    unfolding q4_def by simp
  have r3: "q3 * 100 + q2 mod 100 = q2"
    unfolding q3_def by simp
  have r2: "q2 * 100 + q1 mod 100 = q1"
    unfolding q2_def by simp
  have r1: "q1 * 100 + H mod 100 = H"
    unfolding q1_def by simp
  show ?thesis
    unfolding e4 e3 e2 q1_def [symmetric] r4 r3 r2 r1 ..
qed


lemma decode_encode:
  assumes "H < 10 ^ 10"
  shows "decodeCivFreqHz (encodeCivFreqHz H) =
           (if (word_of_nat H :: u64) > 0xFFFFFFFF then None else Some (ucast (word_of_nat H :: u64)))"
proof -
  define p0 where "p0 = H mod 100"
  define p1 where "p1 = H div 100 mod 100"
  define p2 where "p2 = H div 10000 mod 100"
  define p3 where "p3 = H div 1000000 mod 100"
  define p4 where "p4 = H div 100000000 mod 100"
  have lt: "p0 < 100" "p1 < 100" "p2 < 100" "p3 < 100" "p4 < 100"
    by (simp_all add: p0_def p1_def p2_def p3_def p4_def)
  have enc: "encodeCivFreqHz H = [bcdByte p0, bcdByte p1, bcdByte p2, bcdByte p3, bcdByte p4]"
    by (simp add: encode_list p0_def p1_def p2_def p3_def p4_def)
  have dig: "civDigits (encodeCivFreqHz H) 5 =
      Some (char_of (48 + int p4 div 10) # char_of (48 + int p4 mod 10)
          # char_of (48 + int p3 div 10) # char_of (48 + int p3 mod 10)
          # char_of (48 + int p2 div 10) # char_of (48 + int p2 mod 10)
          # char_of (48 + int p1 div 10) # char_of (48 + int p1 mod 10)
          # char_of (48 + int p0 div 10) # char_of (48 + int p0 mod 10) # [])"
    unfolding enc civDigits_5 by (simp add: bcdToInt2_bcdByte lt)
  have sum: "(((p4 * 100 + p3) * 100 + p2) * 100 + p1) * 100 + p0 = H"
    unfolding p0_def p1_def p2_def p3_def p4_def by (rule hundreds [OF assms])
  have "civHz 0 (char_of (48 + int p4 div 10) # char_of (48 + int p4 mod 10)
          # char_of (48 + int p3 div 10) # char_of (48 + int p3 mod 10)
          # char_of (48 + int p2 div 10) # char_of (48 + int p2 mod 10)
          # char_of (48 + int p1 div 10) # char_of (48 + int p1 mod 10)
          # char_of (48 + int p0 div 10) # char_of (48 + int p0 mod 10) # [])
        = civHz (word_of_nat ((((p4 * 100 + p3) * 100 + p2) * 100 + p1) * 100 + p0)) []"
    by (simp only: civHz_pair0 [OF lt(5)] civHz_pair [OF lt(4)] civHz_pair [OF lt(3)]
      civHz_pair [OF lt(2)] civHz_pair [OF lt(1)])
  then have hz: "civHz 0 (the (civDigits (encodeCivFreqHz H) 5)) = word_of_nat H"
    unfolding dig sum by simp
  show ?thesis
    unfolding decodeCivFreqHz_def using hz by (simp add: dig Let_def)
qed


lemma unat_u64: "H < 10 ^ 10 \<Longrightarrow> unat (word_of_nat H :: u64) = H"
proof -
  assume "H < 10 ^ 10"
  then have "H < 2 ^ LENGTH(64)" by simp
  then show ?thesis by (simp only: unat_of_nat mod_less)
qed

lemma hz_too_big: "H < 10 ^ 10 \<Longrightarrow> (word_of_nat H :: u64) > 0xFFFFFFFF \<longleftrightarrow> 4294967295 < H"
  by (simp add: word_less_nat_alt unat_u64)

lemma hz_ucast: "H \<le> 4294967295 \<Longrightarrow> unat (ucast (word_of_nat H :: u64) :: u32) = H"
proof -
  assume h: "H \<le> 4294967295"
  then have "H < 10 ^ 10" by simp
  then have "unat (word_of_nat H :: u64) = H" by (rule unat_u64)
  moreover have "unat (ucast (word_of_nat H :: u64) :: u32) = take_bit LENGTH(32) (unat (word_of_nat H :: u64))"
    by (rule unsigned_ucast_eq)
  ultimately show ?thesis using h by (simp add: take_bit_eq_mod)
qed

lemma bad_nibble: "bcdToInt2 b < 0 \<longleftrightarrow> 9 < unat b mod 16 \<or> 9 < unat b div 16"
proof -
  have "uint b = int (unat b)" by (simp only: uint_nat)
  then have "uint b mod 16 = int (unat b mod 16)" "uint b div 16 = int (unat b div 16)"
    by (simp_all add: zmod_int zdiv_int)
  then show ?thesis
    unfolding bcd_arith by (simp add: add_nonneg_nonneg)
qed

lemma decode_bad_nibble:
  assumes "length b5 = 5" and "\<exists>b \<in> set b5. 9 < unat b mod 16 \<or> 9 < unat b div 16"
  shows "decodeCivFreqHz b5 = None"
proof -
  from assms(1) obtain b0 b1 b2 b3 b4 where b5: "b5 = [b0, b1, b2, b3, b4]"
    by (auto simp: length_Suc_conv five)
  from assms(2) have "bcdToInt2 b4 < 0 \<or> bcdToInt2 b3 < 0 \<or> bcdToInt2 b2 < 0 \<or> bcdToInt2 b1 < 0 \<or> bcdToInt2 b0 < 0"
    unfolding b5 bad_nibble by auto
  then have "civDigits b5 5 = None"
    unfolding b5 civDigits_5 by simp
  then show ?thesis
    by (simp add: decodeCivFreqHz_def)
qed

subsection \<open>C2: BCD frequency decoding\<close>

text \<open>
  Claim C2, as the sketch has it. Encoding a frequency \<open>H\<close> of at most 4,294,967,295 Hz into
  five BCD bytes and decoding them with \<^verbatim>\<open>decodeCivFreqHz\<close> returns \<open>H\<close>. For \<open>H\<close> above
  that and up to 9,999,999,999 the decoder reports an error, because the value does not
  fit the \<^verbatim>\<open>uint32_t\<close> result (the guard \<^verbatim>\<open>hz > 0xFFFFFFFF\<close>). Five bytes of which one has
  a nibble above 9 always give a decode error.
\<close>

theorem decodeCivFreqHz_roundtrip:
  "(H \<le> 4294967295 \<longrightarrow> map_option unat (decodeCivFreqHz (encodeCivFreqHz H)) = Some H)
   \<and> (4294967295 < H \<and> H \<le> 9999999999 \<longrightarrow> decodeCivFreqHz (encodeCivFreqHz H) = None)
   \<and> (length b5 = 5 \<and> (\<exists>b \<in> set b5. 9 < unat b mod 16 \<or> 9 < unat b div 16)
        \<longrightarrow> decodeCivFreqHz b5 = None)"
proof (intro conjI impI)
  assume h: "H \<le> 4294967295"
  then have "H < 10 ^ 10" by simp
  then show "map_option unat (decodeCivFreqHz (encodeCivFreqHz H)) = Some H"
    using h by (simp add: decode_encode hz_too_big hz_ucast)
next
  assume h: "4294967295 < H \<and> H \<le> 9999999999"
  then have "H < 10 ^ 10" by simp
  then show "decodeCivFreqHz (encodeCivFreqHz H) = None"
    using h by (simp add: decode_encode hz_too_big)
next
  assume "length b5 = 5 \<and> (\<exists>b \<in> set b5. 9 < unat b mod 16 \<or> 9 < unat b div 16)"
  then show "decodeCivFreqHz b5 = None"
    using decode_bad_nibble by blast
qed

text \<open>
  The theorem at 14,330,000 Hz (the example of the quick reference), at the largest
  ten-digit value, and at five bytes whose second byte is \<^verbatim>\<open>0A\<close>.
\<close>

theorem decodeCivFreqHz_roundtrip_witness:
  "map_option unat (decodeCivFreqHz (encodeCivFreqHz 14330000)) = Some 14330000
   \<and> encodeCivFreqHz 14330000 = [0x00, 0x00, 0x33, 0x14, 0x00]
   \<and> decodeCivFreqHz (encodeCivFreqHz 9999999999) = None
   \<and> decodeCivFreqHz [0x00, 0x0A, 0x00, 0x00, 0x00] = None"
  using decodeCivFreqHz_roundtrip [of 14330000 "[]"]
    decodeCivFreqHz_roundtrip [of 9999999999 "[0x00, 0x0A, 0x00, 0x00, 0x00]"]
  by (simp add: encode_list bcdByte_def)

text \<open>
  The claim as written fails at 5,000,000,000 Hz: the value is within the ten digits, its
  encoding is \<^verbatim>\<open>00 00 00 00 50\<close>, and the decoder returns no value for it.
\<close>

theorem decodeCivFreqHz_roundtrip_counterexample:
  "(5000000000::nat) \<le> 9999999999
   \<and> encodeCivFreqHz 5000000000 = [0x00, 0x00, 0x00, 0x00, 0x50]
   \<and> decodeCivFreqHz [0x00, 0x00, 0x00, 0x00, 0x50] = None"
  by (simp add: encode_list bcdByte_def decodeCivFreqHz_def civDigits_5 bcdToInt2_def)

subsection \<open>C9: frequency rendering\<close>

lemma six: "(6::nat) = Suc (Suc (Suc (Suc (Suc (Suc 0)))))"
  by simp

lemma decDigits_6:
  "decDigits 6 r = [digitChar (r div 100000 mod 10), digitChar (r div 10000 mod 10),
     digitChar (r div 1000 mod 10), digitChar (r div 100 mod 10), digitChar (r div 10 mod 10),
     digitChar (r mod 10)]"
  unfolding six by (simp add: decDigits_Suc decDigits_def div_mult2_eq [symmetric])

lemma snprintf_06lu_digits:
  assumes "r < 1000000"
  shows "snprintf_06lu 7 r = decDigits 6 r"
proof -
  from assms have "r < 10 ^ 6" by simp
  from pad_printNumber [OF this] have
    "length (printNumber r 10) \<le> 6"
    "replicate (6 - length (printNumber r 10)) CHR ''0'' @ printNumber r 10 = decDigits 6 r"
    by simp_all
  moreover have "length (decDigits 6 r) = 6" by (simp add: decDigits_def)
  ultimately show ?thesis
    by (simp add: snprintf_06lu_def Let_def)
qed

lemma digitChar_numeral:
  "digitChar 0 = CHR ''0''" "digitChar 1 = CHR ''1''" "digitChar 2 = CHR ''2''"
  "digitChar 3 = CHR ''3''" "digitChar 4 = CHR ''4''" "digitChar 5 = CHR ''5''"
  "digitChar 6 = CHR ''6''" "digitChar 7 = CHR ''7''" "digitChar 8 = CHR ''8''"
  "digitChar 9 = CHR ''9''" "digitChar 10 = CHR ''A''" "digitChar 11 = CHR ''B''"
  "digitChar 12 = CHR ''C''" "digitChar 13 = CHR ''D''" "digitChar 14 = CHR ''E''"
  "digitChar 15 = CHR ''F''" "digitChar (Suc 0) = CHR ''1''"
  by code_simp+

lemma printHzAsMHz_digits:
  "printHzAsMHz hz =
     printNumber (unat hz div 1000000) 10 @ ''.''
     @ take 3 (decDigits 6 (unat hz mod 1000000)) @ ''.''
     @ drop 3 (decDigits 6 (unat hz mod 1000000)) @ '' MHz''"
proof -
  have d: "unat (hz div 1000000) = unat hz div 1000000"
    by (simp add: unat_div)
  have m: "unat (hz mod 1000000) = unat hz mod 1000000"
    by (simp add: unat_mod)
  have "unat hz mod 1000000 < 1000000" by simp
  then have "snprintf_06lu 7 (unat hz mod 1000000) = decDigits 6 (unat hz mod 1000000)"
    by (rule snprintf_06lu_digits)
  then show ?thesis
    unfolding printHzAsMHz_def Let_def d m decDigits_6 by simp
qed

text \<open>
  Claim C9. For every 32-bit hertz value, \<^verbatim>\<open>printHzAsMHz\<close> prints the whole megahertz in
  decimal, a dot, the first three digits of the remainder \<open>hz mod 1000000\<close> written with
  six digits and leading zeros, a dot, the last three digits of it, and \<^verbatim>\<open> MHz\<close>.
\<close>

theorem printHzAsMHz_format:
  "printHzAsMHz hz =
     printNumber (unat hz div 1000000) 10 @ ''.''
     @ take 3 (decDigits 6 (unat hz mod 1000000)) @ ''.''
     @ drop 3 (decDigits 6 (unat hz mod 1000000)) @ '' MHz''"
  by (rule printHzAsMHz_digits)

text \<open>The theorem at 14,074,000 Hz, the example of the specification.\<close>

theorem printHzAsMHz_format_witness:
  "printHzAsMHz 14074000 = ''14.074.000 MHz''
   \<and> decDigits 6 (14074000 mod 1000000) = ''074000''"
  using printHzAsMHz_format [of 14074000]
  by (simp add: printNumber.simps digitChar_numeral decDigits_6)

subsection \<open>Parsing a hex line\<close>


lemma compactLoop_eq:
  "compactLoop compact s =
     (if \<exists>c \<in> set (stripWs s). \<not> isHexChar c then Inl InvalidChar
      else Inr (compact @ stripWs s))"
  by (induction s arbitrary: compact) (auto simp: stripWs_def)

lemma hexNibble_range: "isHexChar c \<Longrightarrow> 0 \<le> hexNibble c \<and> hexNibble c < 16"
proof -
  assume h: "isHexChar c"
  have i: "(of_char c :: int) = int (of_char c)" by (simp only: of_nat_of_char)
  from h show ?thesis
    unfolding isHexChar_def hexNibble_def less_eq_char_def i
    by (auto)
qed


lemma push_or: "0 \<le> hi \<Longrightarrow> 0 \<le> lo \<Longrightarrow> lo < 16 \<Longrightarrow> push_bit 4 hi OR lo = 16 * hi + (lo::int)"
proof -
  assume "0 \<le> hi" and lo: "0 \<le> lo" "lo < 16"
  then have "take_bit 4 lo = lo" by (simp add: take_bit_int_eq_self)
  then have "push_bit 4 hi OR lo = push_bit 4 hi OR take_bit 4 lo" by simp
  also have "\<dots> = push_bit 4 hi + take_bit 4 lo"
    by (rule disjunctive_add [symmetric]) (auto simp: bit_simps)
  finally show ?thesis using \<open>take_bit 4 lo = lo\<close> by (simp add: push_bit_eq_mult)
qed

lemma bytesLoop_append:
  "length pre = 2 * i \<Longrightarrow> list_all isHexChar rest \<Longrightarrow> 2 * (bytes - i) \<le> length rest \<Longrightarrow>
   bytesLoop (pre @ rest) bytes i out = Inr (out @ hexPairs (take (2 * (bytes - i)) rest))"
proof (induction "bytes - i" arbitrary: pre rest i out)
  case 0
  then show ?case by (simp add: bytesLoop.simps)
next
  case (Suc n)
  then have lt: "i < bytes" and n: "n = bytes - (i + 1)" by simp_all
  from Suc.prems lt obtain h l rest' where rest: "rest = h # l # rest'"
    by (cases rest; cases "tl rest") auto
  have at: "(pre @ h # l # rest') ! (i * 2) = h" "(pre @ h # l # rest') ! Suc (i * 2) = l"
    using Suc.prems(1) by (simp_all add: nth_append mult.commute)
  from Suc.prems(2) have hex: "isHexChar h" "isHexChar l" "list_all isHexChar rest'"
    by (simp_all add: rest)
  have nn: "\<not> (hexNibble h < 0 \<or> hexNibble l < 0)"
    using hexNibble_range [OF hex(1)] hexNibble_range [OF hex(2)] by simp
  have byte: "push_bit 4 (hexNibble h) OR hexNibble l = 16 * hexNibble h + hexNibble l"
    using hexNibble_range [OF hex(1)] hexNibble_range [OF hex(2)] by (simp add: push_or)
  have "bytesLoop ((pre @ [h, l]) @ rest') bytes (i + 1) (out @ [word_of_int (16 * hexNibble h + hexNibble l)])
      = Inr ((out @ [word_of_int (16 * hexNibble h + hexNibble l)]) @ hexPairs (take (2 * (bytes - (i + 1))) rest'))"
    using Suc.prems lt by (intro Suc.hyps(1) n) (simp_all add: rest)
  moreover have "2 * (bytes - i) = Suc (Suc (2 * (bytes - (i + 1))))"
    using lt by simp
  then have "take (2 * (bytes - i)) rest = h # l # take (2 * (bytes - (i + 1))) rest'"
    by (simp only: rest take_Suc_Cons)
  ultimately show ?case
    using lt nn by (subst bytesLoop.simps) (simp add: at byte Let_def rest)
qed

lemma hexPairs_length: "length (hexPairs cs) = length cs div 2"
  by (induction cs rule: hexPairs.induct) simp_all

lemma parseHexString_eq:
  "parseHexString inp outMax =
     (if trim inp = [] then Inl EmptyInput
      else if \<exists>c \<in> set (stripWs (trim inp)). \<not> isHexChar c then Inl InvalidChar
      else if odd (length (stripWs (trim inp))) then Inl OddDigits
      else if outMax < length (stripWs (trim inp)) div 2 then Inl (TooManyBytes outMax)
      else Inr (hexPairs (stripWs (trim inp))))"
proof -
  have "bytesLoop compact (length compact div 2) 0 [] = Inr (hexPairs compact)"
    if "list_all isHexChar compact" "even (length compact)" for compact
    using that bytesLoop_append [of "[]" 0 compact "length compact div 2" "[]"] by simp
  then show ?thesis
    by (auto simp: parseHexString_def Let_def compactLoop_eq list_all_iff odd_iff_mod_2_eq_one)
qed


lemma isCivFrame_shape: "isCivFrame bs = civShape bs"
proof (cases "6 \<le> length bs")
  case False
  then show ?thesis by (simp add: isCivFrame_def civShape_def)
next
  case True
  then obtain a b rest where bs: "bs = a # b # rest"
    by (cases bs; cases "tl bs") auto
  from True have "bs \<noteq> []" by auto
  then have "last bs = bs ! (length bs - 1)" by (rule last_conv_nth)
  then show ?thesis
    by (auto simp add: isCivFrame_def civShape_def bs)
qed

subsection \<open>C6: validation of a hex line\<close>

text \<open>
  Claim C6. \<^verbatim>\<open>parseHexString\<close> trims the input and rejects it when nothing is left; it
  strips blanks, tabs, carriage returns and line feeds and rejects the line when a
  character that remains is not a hex digit; it rejects an odd number of digits; it
  rejects more than \<open>outMax\<close> bytes (\<open>outMax\<close> is \<^verbatim>\<open>TX_MAX_BYTES\<close>, 256, in every call of
  the sketch); otherwise it returns the bytes of the digits, half as many as there are
  digits. The checks apply in this order.
\<close>

theorem parseHexString_validation:
  "(let digits = stripWs (trim inp)
    in parseHexString inp outMax =
         (if trim inp = [] then Inl EmptyInput
          else if \<exists>c \<in> set digits. \<not> isHexChar c then Inl InvalidChar
          else if odd (length digits) then Inl OddDigits
          else if outMax < length digits div 2 then Inl (TooManyBytes outMax)
          else Inr (hexPairs digits))
       \<and> length (hexPairs digits) = length digits div 2)"
  by (simp add: Let_def parseHexString_eq hexPairs_length)

lemma trim_replicate_A: "trim (replicate n CHR ''A'') = replicate n CHR ''A''"
  by (simp add: trim_def isspace_def dropWhile_replicate)

text \<open>
  The theorem at the examples of the specification, \<^verbatim>\<open>FE FE 94 E0 03 FD\<close> and \<^verbatim>\<open>ABC\<close>,
  at a blank line, at a line with the letter \<^verbatim>\<open>G\<close>, and at 514 hex digits.
\<close>

theorem parseHexString_validation_witness:
  "parseHexString ''FE FE 94 E0 03 FD'' TX_MAX_BYTES = Inr [0xFE, 0xFE, 0x94, 0xE0, 0x03, 0xFD]
   \<and> parseHexString ''ABC'' TX_MAX_BYTES = Inl OddDigits
   \<and> parseHexString [CHR '' '', CHR 0x09] TX_MAX_BYTES = Inl EmptyInput
   \<and> parseHexString ''FE G0'' TX_MAX_BYTES = Inl InvalidChar
   \<and> parseHexString (replicate 514 CHR ''A'') TX_MAX_BYTES = Inl (TooManyBytes 256)"
  using parseHexString_validation [of "''FE FE 94 E0 03 FD''" TX_MAX_BYTES]
    parseHexString_validation [of "''ABC''" TX_MAX_BYTES]
    parseHexString_validation [of "[CHR '' '', CHR 0x09]" TX_MAX_BYTES]
    parseHexString_validation [of "''FE G0''" TX_MAX_BYTES]
    parseHexString_validation [of "replicate 514 CHR ''A''" TX_MAX_BYTES]
  by (simp add: trim_replicate_A Let_def TX_MAX_BYTES_def trim_def isspace_def stripWs_def isHexChar_def hexNibble_def)


subsection \<open>C7: a rejected hex line changes nothing\<close>

text \<open>
  Claim C7. When \<^verbatim>\<open>parseHexString\<close> rejects the line, \<^verbatim>\<open>sendHexLine\<close> writes nothing to the
  RS232 port and leaves the configuration and the last-TX record (bytes, length, CI-V
  flag) as they were: the state changes only by the error line printed on the console.
  The rejection is one of the four of claim C6.
\<close>

theorem sendHexLine_rejected:
  assumes "parseHexString s TX_MAX_BYTES = Inl e"
  shows "rs232 (sendHexLine st s ms) = rs232 st
       \<and> g (sendHexLine st s ms) = g st
       \<and> gLastTx (sendHexLine st s ms) = gLastTx st
       \<and> gLastTxIsCiv (sendHexLine st s ms) = gLastTxIsCiv st
       \<and> sendHexLine st s ms = st\<lparr> serial := serial st @ emit (''ERR: '' @ errText e @ println) \<rparr>
       \<and> e \<in> {EmptyInput, InvalidChar, OddDigits, TooManyBytes TX_MAX_BYTES}"
proof -
  from assms have "e \<in> {EmptyInput, InvalidChar, OddDigits, TooManyBytes TX_MAX_BYTES}"
    by (auto simp: parseHexString_eq split: if_splits)
  then show ?thesis
    using assms by (simp add: sendHexLine_def)
qed

text \<open>The theorem at the line \<^verbatim>\<open>ABC\<close>, sent from the state after start-up.\<close>

theorem sendHexLine_rejected_witness:
  "parseHexString ''ABC'' TX_MAX_BYTES = Inl OddDigits
   \<and> rs232 (sendHexLine initState ''ABC'' 0) = []
   \<and> g (sendHexLine initState ''ABC'' 0) = defaultConfig
   \<and> gLastTx (sendHexLine initState ''ABC'' 0) = []
   \<and> gLastTxIsCiv (sendHexLine initState ''ABC'' 0) = False
   \<and> serial (sendHexLine initState ''ABC'' 0)
       = emit (''ERR: Ungerade Anzahl Hex-Zeichen (Byte fehlt).'' @ println)"
proof -
  have p: "parseHexString ''ABC'' TX_MAX_BYTES = Inl OddDigits"
    by (simp add: parseHexString_eq trim_def isspace_def stripWs_def isHexChar_def)
  show ?thesis
    using sendHexLine_rejected [OF p, of initState 0] p
    by (simp add: initState_def errText_def)
qed

lemma parse_ok_length:
  "parseHexString s outMax = Inr bytes \<Longrightarrow> length bytes \<le> outMax"
  by (auto simp: parseHexString_eq hexPairs_length split: if_splits)

subsection \<open>C8: the last-TX record\<close>

text \<open>
  Claim C8, as the sketch has it. After a hex line is sent, the last-TX record holds exactly
  the bytes written to the port, and the flag says whether they have binary-frame shape.
  After an ASCII line is sent, the record holds the first \<^verbatim>\<open>TX_MAX_BYTES\<close> (256) bytes of
  the text written to the port, and the flag says whether these recorded bytes have
  binary-frame shape; the record is the transmitted text itself when that text has at
  most 256 bytes. Bytes and flag are both assigned on every send.
\<close>

theorem lastTx_record:
  "(parseHexString s TX_MAX_BYTES = Inr bytes \<longrightarrow>
      rs232 (sendHexLine st s ms) = (if gRs st then rs232 st @ bytes else rs232 st)
      \<and> gLastTx (sendHexLine st s ms) = bytes
      \<and> gLastTxIsCiv (sendHexLine st s ms) = civShape bytes)
   \<and> rs232 (sendAsciiRaw st s ms) = (if gRs st then rs232 st @ map of_char (trim s) else rs232 st)
   \<and> gLastTx (sendAsciiRaw st s ms) = take TX_MAX_BYTES (map of_char (trim s))
   \<and> gLastTxIsCiv (sendAsciiRaw st s ms) = civShape (take TX_MAX_BYTES (map of_char (trim s)))
   \<and> (length (trim s) \<le> TX_MAX_BYTES \<longrightarrow> gLastTx (sendAsciiRaw st s ms) = map of_char (trim s))"
proof -
  have hex: "rs232 (sendHexLine st s ms) = (if gRs st then rs232 st @ bytes else rs232 st)
      \<and> gLastTx (sendHexLine st s ms) = bytes
      \<and> gLastTxIsCiv (sendHexLine st s ms) = civShape bytes"
    if p: "parseHexString s TX_MAX_BYTES = Inr bytes"
    using p parse_ok_length [OF p]
    by (simp add: sendHexLine_def txPrintCommon_def Let_def isCivFrame_shape)
  have ascii: "rs232 (sendAsciiRaw st s ms) = (if gRs st then rs232 st @ map of_char (trim s) else rs232 st)
   \<and> gLastTx (sendAsciiRaw st s ms) = take TX_MAX_BYTES (map of_char (trim s))
   \<and> gLastTxIsCiv (sendAsciiRaw st s ms) = civShape (take TX_MAX_BYTES (map of_char (trim s)))"
    by (simp add: sendAsciiRaw_def txPrintCommon_def Let_def isCivFrame_shape take_map min_def)
  from hex ascii show ?thesis by simp
qed

text \<open>The theorem at the hex line \<^verbatim>\<open>FE FE 94 E0 03 FD\<close> and at the ASCII line \<^verbatim>\<open>FA;\<close>.\<close>

theorem lastTx_record_witness:
  "parseHexString ''FE FE 94 E0 03 FD'' TX_MAX_BYTES = Inr [0xFE, 0xFE, 0x94, 0xE0, 0x03, 0xFD]
   \<and> rs232 (sendHexLine initState ''FE FE 94 E0 03 FD'' 0) = [0xFE, 0xFE, 0x94, 0xE0, 0x03, 0xFD]
   \<and> gLastTx (sendHexLine initState ''FE FE 94 E0 03 FD'' 0) = [0xFE, 0xFE, 0x94, 0xE0, 0x03, 0xFD]
   \<and> gLastTxIsCiv (sendHexLine initState ''FE FE 94 E0 03 FD'' 0)
   \<and> rs232 (sendAsciiRaw initState ''FA;'' 0) = [0x46, 0x41, 0x3B]
   \<and> gLastTx (sendAsciiRaw initState ''FA;'' 0) = [0x46, 0x41, 0x3B]
   \<and> \<not> gLastTxIsCiv (sendAsciiRaw initState ''FA;'' 0)"
proof -
  have p: "parseHexString ''FE FE 94 E0 03 FD'' TX_MAX_BYTES = Inr [0xFE, 0xFE, 0x94, 0xE0, 0x03, 0xFD]"
    by (simp add: parseHexString_eq trim_def isspace_def stripWs_def isHexChar_def hexNibble_def
        TX_MAX_BYTES_def)
  show ?thesis
    using lastTx_record [of "''FE FE 94 E0 03 FD''" "[0xFE, 0xFE, 0x94, 0xE0, 0x03, 0xFD]" initState 0]
      lastTx_record [of "''FA;''" "[]" initState 0] p
    by (simp add: initState_def civShape_def trim_def isspace_def TX_MAX_BYTES_def)
qed

text \<open>
  The claim as written fails for an ASCII line of 257 letters \<^verbatim>\<open>A\<close>: all 257 bytes go out
  on the port, and the record holds 256 of them.
\<close>

theorem lastTx_record_counterexample:
  "rs232 (sendAsciiRaw initState (replicate 257 CHR ''A'') 0) = replicate 257 0x41
   \<and> gLastTx (sendAsciiRaw initState (replicate 257 CHR ''A'') 0) = replicate 256 0x41"
  by (simp add: sendAsciiRaw_def txPrintCommon_def Let_def initState_def trim_replicate_A
      TX_MAX_BYTES_def)

subsection \<open>C4: frame extraction\<close>


lemma rxCivLoop_frames:
  "rxCivLoop st p cursor =
     concat (map (\<lambda>civ. decodeAndPrintCivFrame civ ''RX'' (civEchoFilter (g st) \<and> isEchoOfLastTx st civ))
                 (civFrames p cursor))"
proof (induction p cursor rule: civFrames.induct)
  case (1 p cursor)
  show ?case
  proof (cases "cursor < length p")
    case False
    then show ?thesis by (simp add: rxCivLoop.simps [of st p cursor] civFrames.simps [of p cursor])
  next
    case True
    show ?thesis
    proof (cases "findCivFrame (drop cursor p)")
      case None
      with True show ?thesis
        by (simp add: rxCivLoop.simps [of st p cursor] civFrames.simps [of p cursor])
    next
      case (Some se)
      obtain s0 e0 where se: "se = (s0, e0)" by (cases se)
      from "1.IH" [OF True Some [unfolded se] refl] True Some se show ?thesis
        by (simp add: rxCivLoop.simps [of st p cursor] civFrames.simps [of p cursor])
    qed
  qed
qed

lemma findEnd_first:
  "j \<le> length A \<Longrightarrow> 0xFD \<notin> set (drop j A) \<Longrightarrow> findEnd (A @ 0xFD # B) j = Some (length A)"
proof (induction "length A - j" arbitrary: j)
  case 0
  then show ?case by (subst findEnd.simps) (simp add: nth_append)
next
  case (Suc n)
  then have lt: "j < length A" by simp
  then have "A ! j \<in> set (drop j A)"
    by (metis Cons_nth_drop_Suc list.set_intros(1))
  with Suc.prems have ne: "A ! j \<noteq> 0xFD" by auto
  have "set (drop (j + 1) A) \<subseteq> set (drop j A)"
    by (simp add: set_drop_subset_set_drop)
  with Suc.prems have "0xFD \<notin> set (drop (j + 1) A)" by auto
  with Suc.hyps(1) [of "j + 1"] Suc.hyps(2) lt
  have "findEnd (A @ 0xFD # B) (j + 1) = Some (length A)" by simp
  with lt ne show ?case
    by (subst findEnd.simps) (simp add: nth_append)
qed

lemma findCivFrame_frame:
  "0xFD \<notin> set M \<Longrightarrow> findCivFrame (0xFE # 0xFE # M @ 0xFD # B) = Some (0, length M + 2)"
  using findEnd_first [of "Suc (Suc 0)" "0xFE # 0xFE # M" B]
  by (simp add: findCivFrame_def findCivFrameFrom.simps [of _ 0])


lemma wellFormed_split:
  assumes "wellFormed F"
  obtains M where "F = 0xFE # 0xFE # M @ [0xFD]" and "0xFD \<notin> set M"
proof -
  from assms have len: "6 \<le> length F" and t: "take 2 F = [0xFE, 0xFE]" and l: "last F = 0xFD"
    and nf: "0xFD \<notin> set (butlast F)"
    by (simp_all add: wellFormed_def civShape_def)
  from len have "F \<noteq> []" by auto
  then have F: "F = butlast F @ [0xFD]" using l by (metis append_butlast_last_id)
  from len have "2 \<le> length (butlast F)" by simp
  then obtain a b M where b: "butlast F = a # b # M"
    by (cases "butlast F"; cases "tl (butlast F)") auto
  with t F have "a = 0xFE" "b = 0xFE"
    by (metis append_Cons list.inject take_Suc_Cons numeral_2_eq_2)+
  with b F nf have "F = 0xFE # 0xFE # M @ [0xFD]" "0xFD \<notin> set M"
    by auto
  then show thesis by (rule that)
qed

lemma civFrames_unfold:
  "cursor < length p \<Longrightarrow>
   civFrames (A @ p) (length A + cursor) =
     (case findCivFrame (drop cursor p) of
        None \<Rightarrow> []
      | Some (s0, e0) \<Rightarrow>
          take (e0 - s0 + 1) (drop (s0 + cursor) p) # civFrames (A @ p) (length A + (e0 + cursor + 1)))"
  by (subst civFrames.simps) (simp add: ac_simps split: option.split)

lemma civFrames_shift: "civFrames (A @ B) (length A + c) = civFrames B c"
proof (induction B c rule: civFrames.induct)
  case (1 p cursor)
  show ?case
  proof (cases "cursor < length p")
    case False
    then show ?thesis
      by (simp add: civFrames.simps [of "A @ p"] civFrames.simps [of p cursor])
  next
    case True
    show ?thesis
    proof (cases "findCivFrame (drop cursor p)")
      case None
      with True show ?thesis
        using civFrames_unfold [OF True, of A] civFrames_unfold [OF True, of "[]"] by simp
    next
      case (Some se)
      obtain s0 e0 where se: "se = (s0, e0)" by (cases se)
      have "civFrames (A @ p) (length A + (e0 + cursor + 1)) = civFrames p (e0 + cursor + 1)"
        using "1.IH" [OF True Some [unfolded se] refl] .
      then show ?thesis
        using civFrames_unfold [OF True, of A] civFrames_unfold [OF True, of "[]"] Some se
        by simp
    qed
  qed
qed

lemma civFrames_head:
  assumes "wellFormed F"
  shows "civFrames (F @ rest) 0 = F # civFrames rest 0"
proof -
  from assms obtain M where F: "F = 0xFE # 0xFE # M @ [0xFD]" and M: "0xFD \<notin> set M"
    by (rule wellFormed_split)
  have f: "findCivFrame (F @ rest) = Some (0, length M + 2)"
    using findCivFrame_frame [OF M, of rest] by (simp add: F)
  have "civFrames (F @ rest) (length F + 0) = civFrames rest 0"
    by (rule civFrames_shift)
  moreover have "length M + 2 + 1 = length F" by (simp add: F)
  ultimately show ?thesis
    using f by (subst civFrames.simps) (simp add: F)
qed


lemma civFrames_Nil: "civFrames [] 0 = []"
  by (simp add: civFrames.simps)

text \<open>
  Claim C4, as the sketch has it. From a buffer that is exactly one well-formed frame \<open>F\<close>
  with no \<^verbatim>\<open>FD\<close> before its last byte, the extraction loop takes exactly one frame, \<open>F\<close>,
  and decodes it. From the concatenation of two such frames it takes \<open>F1\<close> and then \<open>F2\<close>,
  and what it prints is the decoding of \<open>F1\<close> followed by the decoding of \<open>F2\<close>.
\<close>

theorem civFrames_wellFormed:
  "(wellFormed F \<longrightarrow>
      civFrames F 0 = [F]
      \<and> rxCivLoop st F 0
          = decodeAndPrintCivFrame F ''RX'' (civEchoFilter (g st) \<and> isEchoOfLastTx st F))
   \<and> (wellFormed F1 \<and> wellFormed F2 \<longrightarrow>
      civFrames (F1 @ F2) 0 = [F1, F2]
      \<and> rxCivLoop st (F1 @ F2) 0
          = decodeAndPrintCivFrame F1 ''RX'' (civEchoFilter (g st) \<and> isEchoOfLastTx st F1)
            @ decodeAndPrintCivFrame F2 ''RX'' (civEchoFilter (g st) \<and> isEchoOfLastTx st F2))"
proof -
  have one: "civFrames F 0 = [F]" if "wellFormed F" for F
    using civFrames_head [OF that, of "[]"] by (simp add: civFrames_Nil)
  have two: "civFrames (F1 @ F2) 0 = [F1, F2]" if "wellFormed F1" "wellFormed F2" for F1 F2
    using civFrames_head [OF that(1), of F2] one [OF that(2)] by simp
  show ?thesis
    by (simp add: rxCivLoop_frames one two)
qed

text \<open>
  The theorem at the read-frequency request \<^verbatim>\<open>FE FE 94 E0 03 FD\<close> followed by the reply
  \<^verbatim>\<open>FE FE E0 94 03 00 00 07 14 00 FD\<close>.
\<close>

theorem civFrames_wellFormed_witness:
  "wellFormed [0xFE, 0xFE, 0x94, 0xE0, 0x03, 0xFD]
   \<and> wellFormed [0xFE, 0xFE, 0xE0, 0x94, 0x03, 0x00, 0x00, 0x07, 0x14, 0x00, 0xFD]
   \<and> civFrames ([0xFE, 0xFE, 0x94, 0xE0, 0x03, 0xFD]
                 @ [0xFE, 0xFE, 0xE0, 0x94, 0x03, 0x00, 0x00, 0x07, 0x14, 0x00, 0xFD]) 0
       = [[0xFE, 0xFE, 0x94, 0xE0, 0x03, 0xFD],
          [0xFE, 0xFE, 0xE0, 0x94, 0x03, 0x00, 0x00, 0x07, 0x14, 0x00, 0xFD]]
   \<and> rxCivLoop initState ([0xFE, 0xFE, 0x94, 0xE0, 0x03, 0xFD]
                 @ [0xFE, 0xFE, 0xE0, 0x94, 0x03, 0x00, 0x00, 0x07, 0x14, 0x00, 0xFD]) 0
       = ''    RX CI-V: to=94 from=E0 cmd=03'' @ println
         @ ''    RX CI-V: to=E0 from=94 cmd=03  -> FREQ: 14.070.000 MHz'' @ println"
proof -
  have w1: "wellFormed [0xFE, 0xFE, 0x94, 0xE0, 0x03, 0xFD]"
    by (simp add: wellFormed_def civShape_def)
  have w2: "wellFormed [0xFE, 0xFE, 0xE0, 0x94, 0x03, 0x00, 0x00, 0x07, 0x14, 0x00, 0xFD]"
    by (simp add: wellFormed_def civShape_def)
  have hex: "printHex2 0xE0 = ''E0''" "printHex2 0x94 = ''94''" "printHex2 0x03 = ''03''"
    by code_simp+
  have hz: "decodeCivFreqHz [0x00, 0x00, 0x07, 0x14, 0x00, 0xFD] = Some 14070000"
    by code_simp
  have mhz: "printHzAsMHz 14070000 = ''14.070.000 MHz''"
    using printHzAsMHz_digits [of 14070000]
    by (simp add: printNumber.simps digitChar_numeral decDigits_6)
  have h1: "civHeader [0xFE, 0xFE, 0x94, 0xE0, 0x03, 0xFD] ''RX'' False
      = ''    RX CI-V: to=94 from=E0 cmd=03''"
    by (simp add: civHeader_def hex)
  have h2: "civHeader [0xFE, 0xFE, 0xE0, 0x94, 0x03, 0x00, 0x00, 0x07, 0x14, 0x00, 0xFD] ''RX'' False
      = ''    RX CI-V: to=E0 from=94 cmd=03''"
    by (simp add: civHeader_def hex)
  have d1: "decodeAndPrintCivFrame [0xFE, 0xFE, 0x94, 0xE0, 0x03, 0xFD] ''RX'' False
      = ''    RX CI-V: to=94 from=E0 cmd=03'' @ println"
    unfolding decodeAndPrintCivFrame_def Let_def h1 by simp
  have d2: "decodeAndPrintCivFrame [0xFE, 0xFE, 0xE0, 0x94, 0x03, 0x00, 0x00, 0x07, 0x14, 0x00, 0xFD] ''RX'' False
      = ''    RX CI-V: to=E0 from=94 cmd=03  -> FREQ: 14.070.000 MHz'' @ println"
    unfolding decodeAndPrintCivFrame_def Let_def h2 by (simp add: hz mhz)
  have e: "\<not> isEchoOfLastTx initState F" for F
    by (simp add: isEchoOfLastTx_def initState_def)
  show ?thesis
    using civFrames_wellFormed [of "[]" initState "[0xFE, 0xFE, 0x94, 0xE0, 0x03, 0xFD]"
        "[0xFE, 0xFE, 0xE0, 0x94, 0x03, 0x00, 0x00, 0x07, 0x14, 0x00, 0xFD]"] w1 w2
    by (simp only: e d1 d2 simp_thms append_assoc)
qed

text \<open>
  The claim as written fails for \<^verbatim>\<open>FE FE 94 E0 03 FD FD\<close>: seven bytes, start sentinel
  first, end sentinel last. The scan stops at the first \<^verbatim>\<open>FD\<close>, index 5, and the one
  frame extracted is the first six bytes.
\<close>

theorem civFrames_wellFormed_counterexample:
  "civShape [0xFE, 0xFE, 0x94, 0xE0, 0x03, 0xFD, 0xFD]
   \<and> findCivFrame [0xFE, 0xFE, 0x94, 0xE0, 0x03, 0xFD, 0xFD] = Some (0, 5)
   \<and> civFrames [0xFE, 0xFE, 0x94, 0xE0, 0x03, 0xFD, 0xFD] 0 = [[0xFE, 0xFE, 0x94, 0xE0, 0x03, 0xFD]]
   \<and> rxCivLoop initState [0xFE, 0xFE, 0x94, 0xE0, 0x03, 0xFD, 0xFD] 0
       = decodeAndPrintCivFrame [0xFE, 0xFE, 0x94, 0xE0, 0x03, 0xFD] ''RX'' False"
proof -
  have f: "findCivFrame [0xFE, 0xFE, 0x94, 0xE0, 0x03, 0xFD, 0xFD] = Some (0, 5)"
    by code_simp
  have f2: "findCivFrame [0xFD] = None"
    by code_simp
  have c: "civFrames [0xFE, 0xFE, 0x94, 0xE0, 0x03, 0xFD, 0xFD] 0 = [[0xFE, 0xFE, 0x94, 0xE0, 0x03, 0xFD]]"
    by (simp add: civFrames.simps f f2)
  have e: "\<not> isEchoOfLastTx initState F" for F
    by (simp add: isEchoOfLastTx_def initState_def)
  show ?thesis
    by (simp add: f c rxCivLoop_frames civShape_def e)
qed

subsection \<open>C1: the echo filter\<close>


lemma sameBytes_drop:
  "n \<le> length a \<Longrightarrow> n \<le> length b \<Longrightarrow> i \<le> n \<Longrightarrow>
   sameBytes a b i n \<longleftrightarrow> drop i (take n a) = drop i (take n b)"
proof (induction "n - i" arbitrary: i)
  case 0
  then have "n = i" by simp
  then show ?case by (subst sameBytes.simps) simp
next
  case (Suc k)
  then have lt: "i < n" by simp
  with Suc.prems have ia: "i < length (take n a)" and ib: "i < length (take n b)" by simp_all
  have da: "drop i (take n a) = a ! i # drop (i + 1) (take n a)"
    using Cons_nth_drop_Suc [OF ia] lt by simp
  have db: "drop i (take n b) = b ! i # drop (i + 1) (take n b)"
    using Cons_nth_drop_Suc [OF ib] lt by simp
  have "sameBytes a b (i + 1) n \<longleftrightarrow> drop (i + 1) (take n a) = drop (i + 1) (take n b)"
    using Suc.hyps(1) [of "i + 1"] Suc.hyps(2) Suc.prems lt by simp
  with lt show ?case
    by (subst sameBytes.simps) (simp add: da db)
qed

lemma sameBytes_prefix:
  "length tx \<le> length buf \<Longrightarrow> sameBytes buf tx 0 (length tx) \<longleftrightarrow> take (length tx) buf = tx"
  using sameBytes_drop [of "length tx" buf tx 0] by simp

lemma removedEchoAtStart_iff:
  "removedEchoAtStart st \<longleftrightarrow>
     civDecode (g st) \<and> civEchoFilter (g st) \<and> gLastTxIsCiv st \<and> gLastTx st \<noteq> []
     \<and> length (gLastTx st) < length (gRxBuf st)
     \<and> take (length (gLastTx st)) (gRxBuf st) = gLastTx st"
  using sameBytes_prefix [of "gLastTx st" "gRxBuf st"]
  by (auto simp: removedEchoAtStart_def)







subsection \<open>C10: carriage return and line feed in Elecraft text\<close>









subsection \<open>Byte ingest\<close>


lemma isEchoOfLastTx_upd [simp]:
  "isEchoOfLastTx (st\<lparr> gLastRxMs := x \<rparr>) civ = isEchoOfLastTx st civ"
  by (simp add: isEchoOfLastTx_def)

lemma rxPrint_upd [simp]: "rxPrint (st\<lparr> gLastRxMs := x \<rparr>) ms p r = rxPrint st ms p r"
  by (simp add: rxPrint_def timestamp_def rxCivLoop_frames)

lemma echo_upd [simp]:
  "removedEchoAtStart (st\<lparr> gLastRxMs := x \<rparr>) = removedEchoAtStart st"
  "startOffset (st\<lparr> gLastRxMs := x \<rparr>) = startOffset st"
  by (simp_all add: removedEchoAtStart_def startOffset_def)

lemma flushRxLine_upd:
  "flushRxLine (st\<lparr> gLastRxMs := x \<rparr>) ms = (flushRxLine st ms)\<lparr> gLastRxMs := x \<rparr>"
  by (simp add: flushRxLine_def)

lemma flushRxLine_fields [simp]:
  "g (flushRxLine st ms) = g st" "gRxBuf (flushRxLine st ms) = []"
  "gLastRxMs (flushRxLine st ms) = gLastRxMs st"
  by (simp_all add: flushRxLine_def)

lemma onRxByte_normal:
  assumes "length (gRxBuf st) \<le> RX_BUF_MAX"
  shows "onRxByte st now b =
     (let st1 = (if gRxBuf st \<noteq> []
                    \<and> (rxGapFlushMs (g st) < now - gLastRxMs st \<or> length (gRxBuf st) = RX_BUF_MAX)
                 then flushRxLine st now else st)\<lparr> gLastRxMs := now \<rparr>;
          st2 = st1\<lparr> gRxBuf := gRxBuf st1 @ [b] \<rparr>
      in if b = 0x3B \<and> proto (g st) = ELE then flushRxLine st2 now else st2)"
  using assms
  by (auto simp: onRxByte_def Let_def flushRxLine_upd RX_BUF_MAX_def)


lemma onRxByte_length:
  assumes "length (gRxBuf st) \<le> RX_BUF_MAX"
  shows "length (gRxBuf (onRxByte st now b)) \<le> RX_BUF_MAX"
  using assms
  by (auto simp: onRxByte_normal [OF assms] Let_def RX_BUF_MAX_def)

lemma drainRx_length:
  "length (gRxBuf st) \<le> RX_BUF_MAX \<Longrightarrow> length (gRxBuf (drainRx st evs)) \<le> RX_BUF_MAX"
proof (induction evs arbitrary: st)
  case Nil
  then show ?case by simp
next
  case (Cons ev evs)
  obtain now b where ev: "ev = (now, b)" by (cases ev)
  from Cons.prems have "length (gRxBuf (onRxByte st now b)) \<le> RX_BUF_MAX"
    by (rule onRxByte_length)
  then show ?case
    unfolding ev by (simp add: Cons.IH)
qed

subsection \<open>The dump of a flush\<close>

lemma digitChar_hexDigit: "n < 16 \<Longrightarrow> digitChar n = hexDigit n"
proof -
  assume "n < 16"
  then consider "n = 0" | "n = 1" | "n = 2" | "n = 3" | "n = 4" | "n = 5" | "n = 6" | "n = 7"
    | "n = 8" | "n = 9" | "n = 10" | "n = 11" | "n = 12" | "n = 13" | "n = 14" | "n = 15"
    by atomize_elim arith
  then show ?thesis
    by cases (simp_all add: digitChar_numeral hexDigit_def)
qed

lemma printHex2_hex2: "printHex2 v = hex2 v"
proof -
  have lt: "unat v < 256" using unsigned_less [of v, where 'a = nat] by simp
  have c: "v < 0x10 \<longleftrightarrow> unat v < 16" by (simp add: word_less_nat_alt)
  show ?thesis
  proof (cases "unat v < 16")
    case True
    then have "printNumber (unat v) 16 = [digitChar (unat v)]"
      by (subst printNumber.simps) simp
    with True show ?thesis
      by (simp add: printHex2_def c hex2_def digitChar_hexDigit hexDigit_def)
  next
    case False
    from lt have d: "unat v div 16 < 16" by simp
    then have "printNumber (unat v div 16) 16 = [digitChar (unat v div 16)]"
      by (subst printNumber.simps) simp
    with False have "printNumber (unat v) 16 = [digitChar (unat v div 16), digitChar (unat v mod 16)]"
      by (subst printNumber.simps) simp
    with False d show ?thesis
      by (simp add: printHex2_def c hex2_def digitChar_hexDigit)
  qed
qed

lemma printHexArray_hexDump: "printHexArray p = hexDump p"
  by (induction p rule: hexDump.induct) (simp_all add: printHex2_hex2)

lemma hexDigit_inj: "a < 16 \<Longrightarrow> b < 16 \<Longrightarrow> hexDigit a = hexDigit b \<Longrightarrow> a = b"
proof -
  have d: "distinct ''0123456789ABCDEF''" by simp
  assume "a < 16" "b < 16" "hexDigit a = hexDigit b"
  then show "a = b"
    using nth_eq_iff_index_eq [OF d, of a b] by (simp add: hexDigit_def)
qed

lemma hex2_inj: "hex2 a = hex2 b \<Longrightarrow> a = b"
proof -
  assume e: "hex2 a = hex2 b"
  have la: "unat a < 256" using unsigned_less [of a, where 'a = nat] by simp
  have lb: "unat b < 256" using unsigned_less [of b, where 'a = nat] by simp
  from e have "hexDigit (unat a div 16) = hexDigit (unat b div 16)"
    and "hexDigit (unat a mod 16) = hexDigit (unat b mod 16)"
    by (simp_all add: hex2_def)
  then have "unat a div 16 = unat b div 16" "unat a mod 16 = unat b mod 16"
    using la lb by (auto intro: hexDigit_inj)
  then have "unat a = unat b"
    by (metis div_mult_mod_eq)
  then show ?thesis by (simp only: word_unat_eq_iff)
qed

lemma hex2_length [simp]: "length (hex2 b) = 2"
  by (simp add: hex2_def)

lemma hexDump_inj: "hexDump p = hexDump q \<Longrightarrow> p = q"
proof (induction p arbitrary: q rule: hexDump.induct)
  case 1
  then have "length (hexDump q) = 0" by simp
  then show ?case by (cases q rule: hexDump.cases) simp_all
next
  case (2 b)
  then have l: "length (hexDump q) = 2" by (metis hexDump.simps(2) hex2_length)
  show ?case
  proof (cases q rule: hexDump.cases)
    case 1
    with l show ?thesis by simp
  next
    case (2 b')
    with "2.prems" have "hex2 b = hex2 b'" by simp
    then have "b = b'" by (rule hex2_inj)
    with 2 show ?thesis by simp
  next
    case (3 b' c' bs')
    with l show ?thesis by simp
  qed
next
  case (3 b c bs)
  show ?case
  proof (cases q rule: hexDump.cases)
    case 1
    with "3.prems" show ?thesis by simp
  next
    case (2 b')
    with "3.prems" have "length (hexDump (b # c # bs)) = 2" by simp
    then show ?thesis by simp
  next
    case (3 b' c' bs')
    with "3.prems" have "hex2 b @ '' '' @ hexDump (c # bs) = hex2 b' @ '' '' @ hexDump (c' # bs')"
      by simp
    then have "hex2 b = hex2 b'" and "hexDump (c # bs) = hexDump (c' # bs')"
      by simp_all
    then have "b = b'" and "c # bs = c' # bs'"
      using "3.IH" by (auto dest: hex2_inj)
    with 3 show ?thesis by simp
  qed
qed

lemma hexDump_length: "p \<noteq> [] \<Longrightarrow> length (hexDump p) = 3 * length p - 1"
  by (induction p rule: hexDump.induct) simp_all


lemma emit_append: "emit (a @ b) = emit a @ emit b"
  by (simp add: emit_def)

lemma emit_Nil: "emit [] = []"
  by (simp add: emit_def)

lemma rxPrint_dump:
  "rxPrint st ms p r =
     emit (dumpLine (g st) ms p r)
     @ emit (if proto (g st) = ICOM \<and> civDecode (g st) then rxCivLoop st p 0 else [])
     @ (if proto (g st) = ELE then rxEleLoop [] p else [])"
  by (simp add: rxPrint_def dumpLine_def timestamp_def emit_def printHexArray_hexDump)

lemma echo_split:
  "gRxBuf st = (if removedEchoAtStart st then gLastTx st else []) @ drop (startOffset st) (gRxBuf st)"
proof (cases "removedEchoAtStart st")
  case True
  then have "take (length (gLastTx st)) (gRxBuf st) = gLastTx st"
    by (simp add: removedEchoAtStart_iff)
  then have "gLastTx st @ drop (length (gLastTx st)) (gRxBuf st) = gRxBuf st"
    by (metis append_take_drop_id)
  with True show ?thesis by (simp add: startOffset_def)
next
  case False
  then show ?thesis by (simp add: startOffset_def)
qed

lemma flushRxLine_serial:
  "gRxBuf st \<noteq> [] \<Longrightarrow>
   serial (flushRxLine st ms)
     = serial st
       @ emit (dumpLine (g st) ms (drop (startOffset st) (gRxBuf st)) (removedEchoAtStart st))
       @ emit (if proto (g st) = ICOM \<and> civDecode (g st)
               then rxCivLoop st (drop (startOffset st) (gRxBuf st)) 0 else [])
       @ (if proto (g st) = ELE then rxEleLoop [] (drop (startOffset st) (gRxBuf st)) else [])"
  by (simp add: flushRxLine_def rxPrint_dump)

lemma flushRxLine_report:
  assumes "gRxBuf s \<noteq> []"
  shows "\<exists>f. serial (flushRxLine s ms) = serial s @ flushedText (g s) f
           \<and> flushedBytes (gLastTx s) f = gRxBuf s"
proof -
  let ?shown = "drop (startOffset s) (gRxBuf s)"
  let ?f = "(ms, removedEchoAtStart s, ?shown,
     emit (if proto (g s) = ICOM \<and> civDecode (g s) then rxCivLoop s ?shown 0 else [])
     @ (if proto (g s) = ELE then rxEleLoop [] ?shown else []))"
  have "serial (flushRxLine s ms) = serial s @ flushedText (g s) ?f"
    using flushRxLine_serial [OF assms, of ms] by (simp add: flushedText_def)
  moreover have "flushedBytes (gLastTx s) ?f = gRxBuf s"
    using echo_split [of s] by (simp add: flushedBytes_def)
  ultimately show ?thesis by blast
qed

lemma flushRxLine_keeps [simp]:
  "gLastTx (flushRxLine st ms) = gLastTx st" "gLastTxIsCiv (flushRxLine st ms) = gLastTxIsCiv st"
  by (simp_all add: flushRxLine_def)

lemma onRxByte_keeps:
  "g (onRxByte st now b) = g st" "gLastTx (onRxByte st now b) = gLastTx st"
  by (simp_all add: onRxByte_def Let_def)

lemma onRxByte_report:
  assumes "length (gRxBuf s) \<le> RX_BUF_MAX"
  shows "\<exists>fs. serial (onRxByte s now b) = serial s @ concat (map (flushedText (g s)) fs)
            \<and> concat (map (flushedBytes (gLastTx s)) fs) @ gRxBuf (onRxByte s now b) = gRxBuf s @ [b]"
proof -
  define fl where "fl \<longleftrightarrow> gRxBuf s \<noteq> []
      \<and> (rxGapFlushMs (g s) < now - gLastRxMs s \<or> length (gRxBuf s) = RX_BUF_MAX)"
  define s1 where "s1 = (if fl then flushRxLine s now else s)\<lparr> gLastRxMs := now \<rparr>"
  define s2 where "s2 = s1\<lparr> gRxBuf := gRxBuf s1 @ [b] \<rparr>"
  have n: "onRxByte s now b = (if b = 0x3B \<and> proto (g s) = ELE then flushRxLine s2 now else s2)"
    using onRxByte_normal [OF assms, of now b] by (simp add: Let_def s2_def s1_def fl_def)
  have k: "g s2 = g s" "gLastTx s2 = gLastTx s" "gRxBuf s2 \<noteq> []"
    by (simp_all add: s2_def s1_def)
  have first: "\<exists>fs. serial s2 = serial s @ concat (map (flushedText (g s)) fs)
            \<and> concat (map (flushedBytes (gLastTx s)) fs) @ gRxBuf s2 = gRxBuf s @ [b]"
  proof (cases fl)
    case True
    then have "gRxBuf s \<noteq> []" by (simp add: fl_def)
    from flushRxLine_report [OF this, of now] obtain f where
      f: "serial (flushRxLine s now) = serial s @ flushedText (g s) f"
         "flushedBytes (gLastTx s) f = gRxBuf s"
      by blast
    with True show ?thesis
      by (intro exI [of _ "[f]"]) (simp add: s2_def s1_def)
  next
    case False
    then show ?thesis
      by (intro exI [of _ "[]"]) (simp add: s2_def s1_def)
  qed
  then obtain fs where fs: "serial s2 = serial s @ concat (map (flushedText (g s)) fs)"
      "concat (map (flushedBytes (gLastTx s)) fs) @ gRxBuf s2 = gRxBuf s @ [b]"
    by blast
  show ?thesis
  proof (cases "b = 0x3B \<and> proto (g s) = ELE")
    case False
    with n fs show ?thesis by auto
  next
    case True
    from flushRxLine_report [OF k(3), of now] obtain f where
      f: "serial (flushRxLine s2 now) = serial s2 @ flushedText (g s2) f"
         "flushedBytes (gLastTx s2) f = gRxBuf s2"
      by blast
    with True n fs k show ?thesis
      by (intro exI [of _ "fs @ [f]"]) simp
  qed
qed

lemma drainRx_keeps:
  "g (drainRx st evs) = g st \<and> gLastTx (drainRx st evs) = gLastTx st"
  by (induction evs arbitrary: st) (auto simp: onRxByte_keeps)

lemma drainRx_report:
  "length (gRxBuf st) \<le> RX_BUF_MAX \<Longrightarrow>
   \<exists>fs. serial (drainRx st evs) = serial st @ concat (map (flushedText (g st)) fs)
      \<and> concat (map (flushedBytes (gLastTx st)) fs) @ gRxBuf (drainRx st evs) = gRxBuf st @ map snd evs"
proof (induction evs arbitrary: st)
  case Nil
  show ?case by (intro exI [of _ "[]"]) simp
next
  case (Cons ev evs)
  obtain now b where ev: "ev = (now, b)" by (cases ev)
  let ?s = "onRxByte st now b"
  from Cons.prems have len: "length (gRxBuf ?s) \<le> RX_BUF_MAX"
    by (rule onRxByte_length)
  from onRxByte_report [OF Cons.prems, of now b] obtain f1 where
    f1: "serial ?s = serial st @ concat (map (flushedText (g st)) f1)"
        "concat (map (flushedBytes (gLastTx st)) f1) @ gRxBuf ?s = gRxBuf st @ [b]"
    by blast
  from Cons.IH [OF len] obtain f2 where
    f2: "serial (drainRx ?s evs) = serial ?s @ concat (map (flushedText (g st)) f2)"
        "concat (map (flushedBytes (gLastTx st)) f2) @ gRxBuf (drainRx ?s evs) = gRxBuf ?s @ map snd evs"
    by (auto simp: onRxByte_keeps)
  have "concat (map (flushedBytes (gLastTx st)) (f1 @ f2)) @ gRxBuf (drainRx ?s evs)
      = (concat (map (flushedBytes (gLastTx st)) f1) @ gRxBuf ?s) @ map snd evs"
    using f2(2) by simp
  also have "\<dots> = gRxBuf st @ b # map snd evs"
    by (simp only: f1(2)) simp
  finally show ?case
    unfolding ev using f1(1) f2(1) by (intro exI [of _ "f1 @ f2"]) simp
qed


lemma findCivFrameFrom_none: "0xFE \<notin> set data \<Longrightarrow> findCivFrameFrom data i = None"
proof (induction data i rule: findCivFrameFrom.induct)
  case (1 data i)
  show ?case
  proof (cases "i + 1 < length data")
    case False
    then show ?thesis by (subst findCivFrameFrom.simps) simp
  next
    case True
    then have "data ! i \<in> set data" by simp
    with "1.prems" have ne: "data ! i \<noteq> 0xFE" by auto
    with True have "findCivFrameFrom data (i + 1) = None"
      using "1.IH"(2) "1.prems" by simp
    with True ne show ?thesis by (subst findCivFrameFrom.simps) simp
  qed
qed

lemma rxCivLoop_none: "0xFE \<notin> set p \<Longrightarrow> rxCivLoop st p cursor = []"
proof -
  assume a: "0xFE \<notin> set p"
  have "set (drop cursor p) \<subseteq> set p" by (rule set_drop_subset)
  with a have "0xFE \<notin> set (drop cursor p)" by auto
  then have "findCivFrame (drop cursor p) = None"
    by (simp add: findCivFrame_def findCivFrameFrom_none)
  then show ?thesis by (subst rxCivLoop.simps) simp
qed

subsection \<open>C5: capacity of the RX buffer\<close>

text \<open>
  Claim C5. Starting with at most \<^verbatim>\<open>RX_BUF_MAX\<close> (512) bytes in the buffer, after any
  sequence of \<^verbatim>\<open>onRxByte\<close> calls the buffer holds at most 512 bytes. No byte is lost
  without trace: the console has gained one dump line for each flushed group, and the
  groups in order, each with the stripped echo (the last-TX record, announced by the
  notice line) before the bytes its dump shows, followed by the bytes still in the buffer,
  are exactly the old buffer followed by all bytes taken in. The dump determines the bytes
  it shows. Every call is: at most one flush of the old buffer (for the gap or for a full
  buffer), then the byte appended, then a flush for the Elecraft terminator. With a full
  buffer the flush of the whole old buffer comes before the byte is stored. A flush
  empties the buffer and prints the dump line of all its bytes but a stripped echo,
  followed by the decoders' lines.
\<close>

theorem rx_buffer_capacity:
  assumes "length (gRxBuf st) \<le> RX_BUF_MAX"
  shows "length (gRxBuf (drainRx st evs)) \<le> RX_BUF_MAX
       \<and> (\<exists>fs. serial (drainRx st evs) = serial st @ concat (map (flushedText (g st)) fs)
              \<and> concat (map (flushedBytes (gLastTx st)) fs) @ gRxBuf (drainRx st evs)
                  = gRxBuf st @ map snd evs)
       \<and> (hexDump p = hexDump q \<longrightarrow> p = q)
       \<and> onRxByte st now b =
           (let st1 = (if gRxBuf st \<noteq> []
                          \<and> (rxGapFlushMs (g st) < now - gLastRxMs st
                              \<or> length (gRxBuf st) = RX_BUF_MAX)
                       then flushRxLine st now else st)\<lparr> gLastRxMs := now \<rparr>;
                st2 = st1\<lparr> gRxBuf := gRxBuf st1 @ [b] \<rparr>
            in if b = 0x3B \<and> proto (g st) = ELE then flushRxLine st2 now else st2)
       \<and> (length (gRxBuf st) = RX_BUF_MAX \<longrightarrow>
            onRxByte st now b =
              (let st2 = (flushRxLine st now)\<lparr> gLastRxMs := now, gRxBuf := [b] \<rparr>
               in if b = 0x3B \<and> proto (g st) = ELE then flushRxLine st2 now else st2))
       \<and> (gRxBuf st \<noteq> [] \<longrightarrow>
            gRxBuf (flushRxLine st now) = []
            \<and> gRxBuf st = (if removedEchoAtStart st then gLastTx st else [])
                           @ drop (startOffset st) (gRxBuf st)
            \<and> serial (flushRxLine st now)
                = serial st
                  @ emit (dumpLine (g st) now (drop (startOffset st) (gRxBuf st)) (removedEchoAtStart st))
                  @ emit (if proto (g st) = ICOM \<and> civDecode (g st)
                          then rxCivLoop st (drop (startOffset st) (gRxBuf st)) 0 else [])
                  @ (if proto (g st) = ELE then rxEleLoop [] (drop (startOffset st) (gRxBuf st)) else []))"
proof -
  have full: "onRxByte st now b =
              (let st2 = (flushRxLine st now)\<lparr> gLastRxMs := now, gRxBuf := [b] \<rparr>
               in if b = 0x3B \<and> proto (g st) = ELE then flushRxLine st2 now else st2)"
    if "length (gRxBuf st) = RX_BUF_MAX"
  proof -
    from that have "gRxBuf st \<noteq> []" by (auto simp: RX_BUF_MAX_def)
    with that show ?thesis
      by (simp add: onRxByte_normal [OF assms] Let_def)
  qed
  have flush: "gRxBuf (flushRxLine st now) = []
            \<and> gRxBuf st = (if removedEchoAtStart st then gLastTx st else [])
                           @ drop (startOffset st) (gRxBuf st)
            \<and> serial (flushRxLine st now)
                = serial st
                  @ emit (dumpLine (g st) now (drop (startOffset st) (gRxBuf st)) (removedEchoAtStart st))
                  @ emit (if proto (g st) = ICOM \<and> civDecode (g st)
                          then rxCivLoop st (drop (startOffset st) (gRxBuf st)) 0 else [])
                  @ (if proto (g st) = ELE then rxEleLoop [] (drop (startOffset st) (gRxBuf st)) else [])"
    if "gRxBuf st \<noteq> []"
    using flushRxLine_serial [OF that, of now] echo_split [of st] by simp
  have inj: "hexDump p = hexDump q \<longrightarrow> p = q"
    using hexDump_inj by blast
  from drainRx_length [OF assms] drainRx_report [OF assms] onRxByte_normal [OF assms] full flush inj
  show ?thesis
    by blast
qed

text \<open>
  The theorem at a full buffer of 512 bytes \<^verbatim>\<open>55\<close> with the bytes \<^verbatim>\<open>56\<close> and \<^verbatim>\<open>57\<close>
  arriving: the forced flush prints the dump of all 512 bytes, 1535 characters, and the
  byte \<^verbatim>\<open>56\<close> is stored. And from the state after start-up with \<^verbatim>\<open>01\<close>, \<^verbatim>\<open>02\<close> arriving
  at 0 and 5 ms and \<^verbatim>\<open>03\<close> at 100 ms: the gap flush prints \<^verbatim>\<open>01 02\<close> and \<^verbatim>\<open>03\<close> is stored.
\<close>

theorem rx_buffer_capacity_witness:
  "length (gRxBuf (initState\<lparr> gRxBuf := replicate 512 0x55 \<rparr>)) \<le> RX_BUF_MAX
   \<and> length (gRxBuf (drainRx (initState\<lparr> gRxBuf := replicate 512 0x55 \<rparr>) [(0, 0x56), (1, 0x57)])) \<le> RX_BUF_MAX
   \<and> gRxBuf (onRxByte (initState\<lparr> gRxBuf := replicate 512 0x55 \<rparr>) 0 0x56) = [0x56]
   \<and> serial (onRxByte (initState\<lparr> gRxBuf := replicate 512 0x55 \<rparr>) 0 0x56)
       = emit (''[0] RX: '' @ hexDump (replicate 512 0x55)
               @ printAsciiArray (replicate 512 0x55) @ println)
   \<and> length (hexDump (replicate 512 0x55)) = 1535
   \<and> gRxBuf (drainRx initState [(0, 0x01), (5, 0x02), (100, 0x03)]) = [0x03]
   \<and> serial (drainRx initState [(0, 0x01), (5, 0x02), (100, 0x03)])
       = emit (''[100] RX: 01 02  |..|'' @ println)"
proof -
  define st where "st = initState\<lparr> gRxBuf := replicate 512 0x55 \<rparr>"
  have full: "length (gRxBuf st) = RX_BUF_MAX"
    by (simp add: st_def RX_BUF_MAX_def)
  then have len: "length (gRxBuf st) \<le> RX_BUF_MAX"
    by simp
  have c: "gRxBuf st = replicate 512 0x55" "serial st = []" "proto (g st) = ICOM" "civDecode (g st)"
    "showTsMs (g st)" "showAscii (g st)" "startOffset st = 0" "\<not> removedEchoAtStart st"
    by (simp_all add: st_def initState_def defaultConfig_def startOffset_def removedEchoAtStart_def)
  have ne: "gRxBuf st \<noteq> []"
    using full by (auto simp: RX_BUF_MAX_def)
  have loop: "rxCivLoop st (replicate 512 0x55) 0 = []"
    by (rule rxCivLoop_none) simp
  have zero: "printNumber 0 10 = ''0''"
    by (simp add: printNumber.simps digitChar_numeral)
  have big: "length (gRxBuf st) \<le> RX_BUF_MAX
   \<and> length (gRxBuf (drainRx st [(0, 0x56), (1, 0x57)])) \<le> RX_BUF_MAX
   \<and> gRxBuf (onRxByte st 0 0x56) = [0x56]
   \<and> serial (onRxByte st 0 0x56)
       = emit (''[0] RX: '' @ hexDump (replicate 512 0x55)
               @ printAsciiArray (replicate 512 0x55) @ println)"
    using rx_buffer_capacity [OF len, of "[(0, 0x56), (1, 0x57)]" "[]" "[]" 0 "0x56"] full ne
    by (simp add: Let_def c loop dumpLine_def zero emit_Nil del: drainRx.simps)
  have dl: "length (hexDump (replicate 512 (0x55 :: byte))) = 1535"
    by (simp add: hexDump_length)
  have e1: "onRxByte initState 0 0x01 = initState\<lparr> gLastRxMs := 0, gRxBuf := [0x01] \<rparr>"
    by (simp add: onRxByte_def Let_def initState_def defaultConfig_def RX_BUF_MAX_def)
  define s2 where "s2 = initState\<lparr> gLastRxMs := 5, gRxBuf := [0x01, 0x02] \<rparr>"
  have e2: "onRxByte (initState\<lparr> gLastRxMs := 0, gRxBuf := [0x01] \<rparr>) 5 0x02 = s2"
    by (simp add: s2_def onRxByte_def Let_def initState_def defaultConfig_def RX_BUF_MAX_def
        RX_GAP_FLUSH_MS_def)
  have c2: "gRxBuf s2 = [0x01, 0x02]" "serial s2 = []" "proto (g s2) = ICOM" "civDecode (g s2)"
    "showTsMs (g s2)" "showAscii (g s2)" "startOffset s2 = 0" "\<not> removedEchoAtStart s2"
    "gLastRxMs s2 = 5" "rxGapFlushMs (g s2) = 25" "length (gRxBuf s2) \<le> RX_BUF_MAX"
    by (simp_all add: s2_def initState_def defaultConfig_def startOffset_def removedEchoAtStart_def
        RX_GAP_FLUSH_MS_def RX_BUF_MAX_def)
  have ev: "hexDump [0x01, 0x02] = ''01 02''" "printAsciiArray [0x01, 0x02] = ''  |..|''"
    "printNumber 100 10 = ''100''"
    by code_simp+
  have loop2: "rxCivLoop s2 [0x01, 0x02] 0 = []"
    by (rule rxCivLoop_none) simp
  have small: "gRxBuf (onRxByte s2 100 0x03) = [0x03]
    \<and> serial (onRxByte s2 100 0x03) = emit (''[100] RX: 01 02  |..|'' @ println)"
    using rx_buffer_capacity [OF c2(11), of "[]" "[]" "[]" 100 "0x03"]
    by (simp add: Let_def c2 loop2 dumpLine_def ev emit_Nil del: hexDump.simps)
  have "gRxBuf (drainRx initState [(0, 0x01), (5, 0x02), (100, 0x03)]) = [0x03]
    \<and> serial (drainRx initState [(0, 0x01), (5, 0x02), (100, 0x03)])
       = emit (''[100] RX: 01 02  |..|'' @ println)"
    using small by (simp add: e1 e2)
  with big dl show ?thesis
    by (simp only: st_def simp_thms)
qed


subsection \<open>C3: timing of the gap flush\<close>

lemma within_gap: "10 \<le> t \<Longrightarrow> t \<le> 35 \<Longrightarrow> \<not> 25 < t - 10" for t :: u32
proof -
  assume a: "10 \<le> t" and b: "t \<le> 35"
  from a have "unat (t - 10) = unat t - unat (10 :: u32)" by (rule unat_sub)
  moreover from b have "unat t \<le> 35" by (simp add: word_le_nat_alt)
  ultimately show ?thesis by (simp add: word_less_nat_alt)
qed

lemma beyond_gap: "36 \<le> t \<Longrightarrow> 25 < t - 10" for t :: u32
proof -
  assume a: "36 \<le> t"
  then have "10 \<le> t" by (simp add: word_le_nat_alt)
  then have "unat (t - 10) = unat t - unat (10 :: u32)" by (rule unat_sub)
  moreover from a have "36 \<le> unat t" by (simp add: word_le_nat_alt)
  ultimately show ?thesis by (simp add: word_less_nat_alt)
qed

lemma one_arrival:
  assumes "length (gRxBuf s) < RX_BUF_MAX" and "\<not> (gRxBuf s \<noteq> [] \<and> rxGapFlushMs (g s) < now - gLastRxMs s)"
    and "\<not> (b = 0x3B \<and> proto (g s) = ELE)"
  shows "onRxByte s now b = s\<lparr> gLastRxMs := now, gRxBuf := gRxBuf s @ [b] \<rparr>"
  using assms by (auto simp: onRxByte_def Let_def)

lemma three_arrivals:
  assumes e: "gRxBuf st = []" and gap: "rxGapFlushMs (g st) = 25"
    and t: "proto (g st) = ELE \<longrightarrow> 0x3B \<notin> {b0, b1, b2}"
  shows "drainRx st [(0, b0), (5, b1), (10, b2)] = st\<lparr> gLastRxMs := 10, gRxBuf := [b0, b1, b2] \<rparr>"
proof -
  from t have n: "\<not> (b0 = 0x3B \<and> proto (g st) = ELE)" "\<not> (b1 = 0x3B \<and> proto (g st) = ELE)"
    "\<not> (b2 = 0x3B \<and> proto (g st) = ELE)"
    by auto
  have s1: "onRxByte st 0 b0 = st\<lparr> gLastRxMs := 0, gRxBuf := [b0] \<rparr>"
    using one_arrival [of st 0 b0] e n(1) by (simp add: RX_BUF_MAX_def)
  have s2: "onRxByte (st\<lparr> gLastRxMs := 0, gRxBuf := [b0] \<rparr>) 5 b1 = st\<lparr> gLastRxMs := 5, gRxBuf := [b0, b1] \<rparr>"
    using one_arrival [of "st\<lparr> gLastRxMs := 0, gRxBuf := [b0] \<rparr>" 5 b1] gap n(2)
    by (simp add: RX_BUF_MAX_def)
  have s3: "onRxByte (st\<lparr> gLastRxMs := 5, gRxBuf := [b0, b1] \<rparr>) 10 b2
      = st\<lparr> gLastRxMs := 10, gRxBuf := [b0, b1, b2] \<rparr>"
    using one_arrival [of "st\<lparr> gLastRxMs := 5, gRxBuf := [b0, b1] \<rparr>" 10 b2] gap n(3)
    by (simp add: RX_BUF_MAX_def)
  show ?thesis
    by (simp add: s1 s2 s3)
qed

text \<open>
  Claim C3, as the sketch has it. With a gap threshold of 25 ms and an empty buffer, bytes
  arriving at 0, 5 and 10 ms (none of them the terminator \<^verbatim>\<open>;\<close> when the protocol is
  Elecraft) are gathered without a flush; the gap
  check of the loop leaves the buffer alone at every reading from 10 up to and including
  35 ms, and flushes it at every reading from 36 ms on. In general, with the elapsed time
  \<^verbatim>\<open>now - gLastRxMs\<close> taken in 32-bit arithmetic: when the buffer is not empty and the
  elapsed time exceeds the threshold, the gap check flushes, and an arriving byte is
  stored after a flush of the old buffer; when the elapsed time is at most the threshold,
  the gap check does nothing, and an arriving byte is appended without a flush unless the
  buffer is full or the byte is the Elecraft terminator.
\<close>

theorem gap_flush_timing:
  "(gRxBuf st = [] \<and> rxGapFlushMs (g st) = 25 \<and> (proto (g st) = ELE \<longrightarrow> 0x3B \<notin> {b0, b1, b2}) \<longrightarrow>
      drainRx st [(0, b0), (5, b1), (10, b2)] = st\<lparr> gLastRxMs := 10, gRxBuf := [b0, b1, b2] \<rparr>
      \<and> (10 \<le> t \<and> t \<le> 35 \<longrightarrow>
           pollGap (drainRx st [(0, b0), (5, b1), (10, b2)]) t = drainRx st [(0, b0), (5, b1), (10, b2)])
      \<and> (36 \<le> t \<longrightarrow>
           pollGap (drainRx st [(0, b0), (5, b1), (10, b2)]) t
             = flushRxLine (drainRx st [(0, b0), (5, b1), (10, b2)]) t
           \<and> gRxBuf (pollGap (drainRx st [(0, b0), (5, b1), (10, b2)]) t) = []))
   \<and> (gRxBuf s \<noteq> [] \<and> rxGapFlushMs (g s) < now - gLastRxMs s \<longrightarrow>
        pollGap s now = flushRxLine s now \<and> gRxBuf (pollGap s now) = []
        \<and> onRxByte s now b =
            (let s2 = (flushRxLine s now)\<lparr> gLastRxMs := now, gRxBuf := [b] \<rparr>
             in if b = 0x3B \<and> proto (g s) = ELE then flushRxLine s2 now else s2))
   \<and> (now - gLastRxMs s \<le> rxGapFlushMs (g s) \<longrightarrow>
        pollGap s now = s
        \<and> (length (gRxBuf s) < RX_BUF_MAX \<and> \<not> (b = 0x3B \<and> proto (g s) = ELE) \<longrightarrow>
             onRxByte s now b = s\<lparr> gLastRxMs := now, gRxBuf := gRxBuf s @ [b] \<rparr>))"
proof (intro conjI impI)
  assume a: "gRxBuf st = [] \<and> rxGapFlushMs (g st) = 25 \<and> (proto (g st) = ELE \<longrightarrow> 0x3B \<notin> {b0, b1, b2})"
  then show d: "drainRx st [(0, b0), (5, b1), (10, b2)] = st\<lparr> gLastRxMs := 10, gRxBuf := [b0, b1, b2] \<rparr>"
    by (intro three_arrivals) simp_all
  {
    assume "10 \<le> t \<and> t \<le> 35"
    then have "\<not> 25 < t - 10" by (simp add: within_gap)
    with a show "pollGap (drainRx st [(0, b0), (5, b1), (10, b2)]) t = drainRx st [(0, b0), (5, b1), (10, b2)]"
      unfolding d by (simp add: pollGap_def)
  }
  {
    assume "36 \<le> t"
    then have "25 < t - 10" by (rule beyond_gap)
    with a show "pollGap (drainRx st [(0, b0), (5, b1), (10, b2)]) t
             = flushRxLine (drainRx st [(0, b0), (5, b1), (10, b2)]) t"
      and "gRxBuf (pollGap (drainRx st [(0, b0), (5, b1), (10, b2)]) t) = []"
      unfolding d by (simp_all add: pollGap_def)
  }
next
  assume a: "gRxBuf s \<noteq> [] \<and> rxGapFlushMs (g s) < now - gLastRxMs s"
  then show "pollGap s now = flushRxLine s now" and "gRxBuf (pollGap s now) = []"
    by (simp_all add: pollGap_def)
  from a show "onRxByte s now b =
            (let s2 = (flushRxLine s now)\<lparr> gLastRxMs := now, gRxBuf := [b] \<rparr>
             in if b = 0x3B \<and> proto (g s) = ELE then flushRxLine s2 now else s2)"
    by (simp add: onRxByte_def Let_def RX_BUF_MAX_def)
next
  assume a: "now - gLastRxMs s \<le> rxGapFlushMs (g s)"
  then show "pollGap s now = s"
    by (simp add: pollGap_def not_less [symmetric])
  assume "length (gRxBuf s) < RX_BUF_MAX \<and> \<not> (b = 0x3B \<and> proto (g s) = ELE)"
  with a show "onRxByte s now b = s\<lparr> gLastRxMs := now, gRxBuf := gRxBuf s @ [b] \<rparr>"
    by (auto simp: onRxByte_def Let_def not_less [symmetric])
qed


text \<open>
  The theorem from the state after start-up, with the bytes \<^verbatim>\<open>01 02 03\<close>: the readings 35
  and 36 of the gap check, and a fourth byte arriving at 35 or at 36 ms.
\<close>

theorem gap_flush_timing_witness:
  "drainRx initState [(0, 0x01), (5, 0x02), (10, 0x03)]
     = initState\<lparr> gLastRxMs := 10, gRxBuf := [0x01, 0x02, 0x03] \<rparr>
   \<and> pollGap (initState\<lparr> gLastRxMs := 10, gRxBuf := [0x01, 0x02, 0x03] \<rparr>) 35
     = initState\<lparr> gLastRxMs := 10, gRxBuf := [0x01, 0x02, 0x03] \<rparr>
   \<and> gRxBuf (pollGap (initState\<lparr> gLastRxMs := 10, gRxBuf := [0x01, 0x02, 0x03] \<rparr>) 36) = []
   \<and> serial (pollGap (initState\<lparr> gLastRxMs := 10, gRxBuf := [0x01, 0x02, 0x03] \<rparr>) 36)
     = emit (''[36] RX: 01 02 03  |...|'' @ println)
   \<and> gRxBuf (onRxByte (initState\<lparr> gLastRxMs := 10, gRxBuf := [0x01, 0x02, 0x03] \<rparr>) 36 0x04) = [0x04]
   \<and> gRxBuf (onRxByte (initState\<lparr> gLastRxMs := 10, gRxBuf := [0x01, 0x02, 0x03] \<rparr>) 35 0x04)
     = [0x01, 0x02, 0x03, 0x04]"
proof -
  define st3 where "st3 = initState\<lparr> gLastRxMs := 10, gRxBuf := [0x01, 0x02, 0x03] \<rparr>"
  have i: "gRxBuf initState = [] \<and> rxGapFlushMs (g initState) = 25 \<and> proto (g initState) = ICOM"
    by (simp add: initState_def defaultConfig_def RX_GAP_FLUSH_MS_def)
  have c: "gRxBuf st3 = [0x01, 0x02, 0x03]" "gLastRxMs st3 = 10" "rxGapFlushMs (g st3) = 25"
    "proto (g st3) = ICOM" "serial st3 = []" "showTsMs (g st3)" "showAscii (g st3)" "civDecode (g st3)"
    "startOffset st3 = 0" "\<not> removedEchoAtStart st3"
    by (simp_all add: st3_def initState_def defaultConfig_def RX_GAP_FLUSH_MS_def startOffset_def
        removedEchoAtStart_def)
  have ev: "printHexArray [0x01, 0x02, 0x03] = ''01 02 03''"
    "printAsciiArray [0x01, 0x02, 0x03] = ''  |...|''" "printNumber 36 10 = ''36''"
    by code_simp+
  have nf: "findCivFrame [0x01, 0x02, 0x03] = None"
    by code_simp
  have loop: "rxCivLoop st3 [0x01, 0x02, 0x03] 0 = []"
    by (subst rxCivLoop.simps) (simp add: nf)
  have out: "serial (flushRxLine st3 36) = emit (''[36] RX: 01 02 03  |...|'' @ println)"
    by (simp add: flushRxLine_def rxPrint_def timestamp_def c ev loop del: printHexArray.simps)
  have "drainRx initState [(0, 0x01), (5, 0x02), (10, 0x03)] = st3
   \<and> pollGap st3 35 = st3
   \<and> gRxBuf (pollGap st3 36) = []
   \<and> serial (pollGap st3 36) = emit (''[36] RX: 01 02 03  |...|'' @ println)
   \<and> gRxBuf (onRxByte st3 36 0x04) = [0x04]
   \<and> gRxBuf (onRxByte st3 35 0x04) = [0x01, 0x02, 0x03, 0x04]"
    using gap_flush_timing [of initState "0x01" "0x02" "0x03" 35 st3 36 "0x04"]
      gap_flush_timing [of initState "0x01" "0x02" "0x03" 36 st3 35 "0x04"] i
    by (simp add: c out st3_def [symmetric] Let_def RX_BUF_MAX_def del: drainRx.simps)
  then show ?thesis
    by (simp only: st3_def)
qed

text \<open>
  The claim as written fails at 35 ms: after arrivals at 0, 5 and 10 ms the gap check with
  the reading 35 prints nothing and leaves the three bytes in the buffer.
\<close>

theorem gap_flush_timing_counterexample:
  "gRxBuf (pollGap (drainRx initState [(0, 0x01), (5, 0x02), (10, 0x03)]) 35) = [0x01, 0x02, 0x03]
   \<and> serial (pollGap (drainRx initState [(0, 0x01), (5, 0x02), (10, 0x03)]) 35) = []"
  by (simp add: pollGap_def onRxByte_def Let_def initState_def defaultConfig_def RX_GAP_FLUSH_MS_def
      RX_BUF_MAX_def)

end
